theory Spec2Isabelle
  imports Main "HOL-Library.Multiset"
begin

section \<open>Nodes\<close>

text \<open>
  The manipulation code sees the tree only through the accessors of \<open>Node\<close>:
  \<open>getKind()\<close>, \<open>getPos()\<close>, \<open>getParent()\<close>, the children and the object itself.
  \<open>areNodesEqual\<close> reads nothing of a node but its start position and its kind, so a
  reference to another node (the parent) is kept as the identity of that object with its
  start position and its kind.
\<close>

datatype nodeRef = NodeRef (refIdent: nat) (refPos: int) (refKind: nat)

text \<open>
  \<open>ident\<close> is the identity of the object. For a node of the tree being edited it is the
  identity of the wrapper (\<open>currentNode\<close>); for a node of the freshly parsed tree it is the
  identity of the parsed node (\<open>newNode.node\<close>), and the wrapper through which the walk
  reads that node is recorded in the registry below. The tree of wrappers is the caller's
  view when the edit starts: the walk reads the kind and the children of a wrapper before
  it replaces the node of that wrapper.
\<close>

datatype node =
  Node (ident: nat) (getKind: nat) (getPos: int) (getEnd: int)
       (getParent: "nodeRef option") (getChildren: "node list")

definition refOf :: "node \<Rightarrow> nodeRef" where
  "refOf n = NodeRef (ident n) (getPos n) (getKind n)"

text \<open>Every node of a tree, the root first.\<close>

fun nodesOf :: "node \<Rightarrow> node list"
  and nodesOfList :: "node list \<Rightarrow> node list" where
  "nodesOf (Node i k p e par cs) = Node i k p e par cs # nodesOfList cs"
| "nodesOfList [] = []"
| "nodesOfList (c # cs) = nodesOf c @ nodesOfList cs"

definition identsOf :: "node \<Rightarrow> nat list" where
  "identsOf n = map ident (nodesOf n)"

section \<open>Errors\<close>

datatype error =
    ArgumentError nat int
  | InvalidOperationError node node
  | TypeError
  | LeftOverError
  | ReplaceKindMismatch node node

text \<open>
  \<open>ArgumentError n i\<close>: ``Range is 0 to n, but i was provided''.
  \<open>InvalidOperationError c n\<close>: the message built from the current node and the new node.
  \<open>TypeError\<close>: a method called on \<open>undefined\<close>, which is what an exhausted iterator's
  \<open>next().value\<close> is.
  \<open>LeftOverError\<close>: ``Error replacing tree: Should not have new children left over.''
\<close>

section \<open>The wrapper registry\<close>

text \<open>
  \<open>compilerNodeOf\<close>: the node a wrapper holds. \<open>nodeCache\<close>: the wrapper a node is mapped
  to, for the wrappers that have a number. \<open>made\<close>: the nodes for which a wrapper has been
  constructed on the way; such a wrapper is a new object, none of the numbered ones, and
  is known by the node it was constructed for.
\<close>

record registry =
  compilerNodeOf :: "nat \<rightharpoonup> node"
  nodeCache :: "nat \<rightharpoonup> nat"
  forgotten :: "nat set"
  made :: "nat set"

type_synonym outcome = "error option \<times> registry"

text \<open>
  Modelled from the spec: \<open>CompilerFactory.replaceCompilerNode\<close> is not among the
  sources. Section 4.1 (\<open>replaceUnderlyingNode\<close>): the kinds of the wrapper's current node
  and of the new node must agree, which is checked and fatal otherwise; the wrapper's
  current revision is updated, the mapping is registered under the new node, and the
  mapping of the old node is dropped recursively. No wrapper is allocated, and the
  wrappers made on the way stay on record.
\<close>

definition dropOld :: "node option \<Rightarrow> (nat \<rightharpoonup> nat) \<Rightarrow> (nat \<rightharpoonup> nat)" where
  "dropOld old cache =
     (case old of
        None \<Rightarrow> cache
      | Some oldNode \<Rightarrow> (\<lambda>u. if u \<in> set (identsOf oldNode) then None else cache u))"

definition replaceCompilerNode :: "node \<Rightarrow> node \<Rightarrow> registry \<Rightarrow> outcome" where
  "replaceCompilerNode wrapper newNode s =
     (if getKind wrapper \<noteq> getKind newNode then (Some (ReplaceKindMismatch wrapper newNode), s)
      else (None,
            s\<lparr>compilerNodeOf := (compilerNodeOf s)(ident wrapper \<mapsto> newNode),
              nodeCache := (dropOld (compilerNodeOf s (ident wrapper)) (nodeCache s))
                              (ident newNode \<mapsto> ident wrapper)\<rparr>))"

text \<open>
  Modelled from the spec: \<open>Node.getChildren\<close>, \<open>Node.getChildrenIterator\<close> and
  \<open>createTempSourceFileFromText\<close> are not among the sources; what they give is wrappers
  (\<open>Node\<close>, \<open>SourceFile\<close>). Section 4.1 (\<open>getOrCreateWrapper\<close>): the wrapper of a node that
  the registry tracks is returned, otherwise a new wrapper is constructed and registered.
  What the walk reads of a wrapper of the new tree (its kind, its start, its parent, its
  children and \<open>.node\<close>) is what the parsed node has, since \<open>replaceCompilerNode\<close> is never
  called on such a wrapper; so only the registry is returned here.

  \<open>getChildren()\<close> returns the array of the wrappers of all the children: every one of
  them is obtained before a loop over the array starts (\<open>wrapChildren\<close>).
  \<open>getChildrenIterator()\<close> obtains the wrapper of a child when \<open>next()\<close> reaches that child
  (\<open>wrapNext\<close>).
\<close>

definition getOrCreateWrapper :: "node \<Rightarrow> registry \<Rightarrow> registry" where
  "getOrCreateWrapper n s =
     (if nodeCache s (ident n) = None then s\<lparr>made := insert (ident n) (made s)\<rparr> else s)"

fun wrapChildren :: "node list \<Rightarrow> registry \<Rightarrow> registry" where
  "wrapChildren [] s = s"
| "wrapChildren (c # cs) s = wrapChildren cs (getOrCreateWrapper c s)"

definition wrapNext :: "node list \<Rightarrow> registry \<Rightarrow> registry" where
  "wrapNext it s = (case it of [] \<Rightarrow> s | c # _ \<Rightarrow> getOrCreateWrapper c s)"

text \<open>
  Modelled from the spec: the class \<open>Node\<close> is not among the sources. Section 6: what a
  wrapper shows is always its latest revision. So \<open>getPos()\<close> and \<open>getKind()\<close> of a
  wrapper that outlives a replacement, as the list and its parent do in
  \<open>insertIntoSyntaxList\<close>, are those of the node the registry holds for it at that moment;
  a wrapper unknown to the registry shows what it showed when the edit started.
\<close>

definition currentRef :: "registry \<Rightarrow> nodeRef \<Rightarrow> nodeRef" where
  "currentRef s r =
     (case compilerNodeOf s (refIdent r) of
        None \<Rightarrow> r
      | Some held \<Rightarrow> NodeRef (refIdent r) (getPos held) (getKind held))"

section \<open>Text patching\<close>

text \<open>
  \<open>String.prototype.substring\<close>: an index below 0 counts as 0, one above the length as the
  length, and the two indices are swapped when the first is the larger.
\<close>

definition clampIndex :: "'a list \<Rightarrow> int \<Rightarrow> nat" where
  "clampIndex t i = (if i < 0 then 0 else if i > int (length t) then length t else nat i)"

definition substring :: "'a list \<Rightarrow> int \<Rightarrow> int \<Rightarrow> 'a list" where
  "substring t a b =
     (let a' = clampIndex t a; b' = clampIndex t b;
          lo = min a' b'; hi = max a' b'
      in take (hi - lo) (drop lo t))"

definition substringFrom :: "'a list \<Rightarrow> int \<Rightarrow> 'a list" where
  "substringFrom t a = drop (clampIndex t a) t"

definition newFileText :: "string \<Rightarrow> int \<Rightarrow> string \<Rightarrow> string" where
  "newFileText currentText insertPos newText =
     substring currentText 0 insertPos @ newText @ substringFrom currentText insertPos"

section \<open>insertIntoSyntaxList\<close>

text \<open>The variables the nested functions close over.\<close>

record editArgs =
  syntaxList :: node
  syntaxListParent :: "nodeRef option"
  childIndex :: int
  insertItemsCount :: int

fun areNodesEqual :: "nodeRef option \<Rightarrow> nodeRef option \<Rightarrow> bool" where
  "areNodesEqual None None = True"
| "areNodesEqual None (Some b) = False"
| "areNodesEqual (Some a) None = False"
| "areNodesEqual (Some a) (Some b) = (refPos a = refPos b \<and> refKind a = refKind b)"

text \<open>
  The condition under which a child of the new tree goes to \<open>handleSyntaxList\<close>. The list
  and its parent are wrappers, read when the comparison is made.
\<close>

definition isSyntaxListChild :: "editArgs \<Rightarrow> registry \<Rightarrow> node \<Rightarrow> bool" where
  "isSyntaxListChild env s newNodeChild =
     (areNodesEqual (Some (refOf newNodeChild)) (Some (currentRef s (refOf (syntaxList env))))
      \<and> areNodesEqual (getParent newNodeChild) (map_option (currentRef s) (syntaxListParent env)))"

text \<open>
  An iterator over the children is the list of the children not yet taken.
  \<open>nextValue\<close> is \<open>next().value\<close>, \<open>advance\<close> what is left after the call.
\<close>

definition nextValue :: "node list \<Rightarrow> node option" where
  "nextValue it = (case it of [] \<Rightarrow> None | c # _ \<Rightarrow> Some c)"

definition advance :: "node list \<Rightarrow> node list" where
  "advance it = (case it of [] \<Rightarrow> [] | _ # cs \<Rightarrow> cs)"

definition inInsertedRange :: "editArgs \<Rightarrow> int \<Rightarrow> bool" where
  "inInsertedRange env i = (i \<ge> childIndex env \<and> i < childIndex env + insertItemsCount env)"

text \<open>
  The nested functions, each with its loop. The loop of \<open>handleNode\<close> runs over
  \<open>newNode.getChildrenIterator(tempSourceFile)\<close>: a round starts with the wrapper of the
  new child being obtained. The loop of \<open>handleSyntaxList\<close> runs over the array
  \<open>newNode.getChildren()\<close>: the wrappers of all the new children are obtained, then the
  rounds are made. A call on \<open>undefined\<close>, the value of an exhausted iterator, fails when
  the callee reads \<open>currentNode\<close>, which is the first thing both functions do.
\<close>

fun handleNode :: "editArgs \<Rightarrow> node option \<Rightarrow> node \<Rightarrow> registry \<Rightarrow> outcome"
  and handleNodeChildren :: "editArgs \<Rightarrow> node list \<Rightarrow> node list \<Rightarrow> registry \<Rightarrow> outcome"
  and handleSyntaxList :: "editArgs \<Rightarrow> node option \<Rightarrow> node \<Rightarrow> registry \<Rightarrow> outcome"
  and handleSyntaxListChildren ::
    "editArgs \<Rightarrow> int \<Rightarrow> node list \<Rightarrow> node list \<Rightarrow> registry \<Rightarrow> outcome"
where
  "handleNode env None newNode s = (Some TypeError, s)"
| "handleNode env (Some currentNode) (Node i k p e par newChildren) s =
     (if getKind currentNode \<noteq> k
      then (Some (InvalidOperationError currentNode (Node i k p e par newChildren)), s)
      else (case handleNodeChildren env (getChildren currentNode) newChildren s of
              (Some err, s') \<Rightarrow> (Some err, s')
            | (None, s') \<Rightarrow> replaceCompilerNode currentNode (Node i k p e par newChildren) s'))"
| "handleNodeChildren env currentNodeChildren [] s = (None, s)"
| "handleNodeChildren env currentNodeChildren (newNodeChild # rest) s =
     (case (if isSyntaxListChild env (getOrCreateWrapper newNodeChild s) newNodeChild
            then handleSyntaxList env (nextValue currentNodeChildren) newNodeChild
                   (getOrCreateWrapper newNodeChild s)
            else handleNode env (nextValue currentNodeChildren) newNodeChild
                   (getOrCreateWrapper newNodeChild s)) of
        (Some err, s') \<Rightarrow> (Some err, s')
      | (None, s') \<Rightarrow> handleNodeChildren env (advance currentNodeChildren) rest s')"
| "handleSyntaxList env None newNode s = (Some TypeError, s)"
| "handleSyntaxList env (Some currentNode) (Node i k p e par newChildren) s =
     (case handleSyntaxListChildren env 0 (getChildren currentNode) newChildren
             (wrapChildren newChildren s) of
        (Some err, s') \<Rightarrow> (Some err, s')
      | (None, s') \<Rightarrow> replaceCompilerNode currentNode (Node i k p e par newChildren) s')"
| "handleSyntaxListChildren env i currentNodeChildren [] s = (None, s)"
| "handleSyntaxListChildren env i currentNodeChildren (newNodeChild # rest) s =
     (if inInsertedRange env i
      then handleSyntaxListChildren env (i + 1) currentNodeChildren rest s
      else (case handleNode env (nextValue currentNodeChildren) newNodeChild s of
              (Some err, s') \<Rightarrow> (Some err, s')
            | (None, s') \<Rightarrow>
                handleSyntaxListChildren env (i + 1) (advance currentNodeChildren) rest s'))"

text \<open>
  \<open>createTempSourceFileFromText\<close> is the external parser: text in, tree out; the source
  file it returns is the wrapper of the root of that tree. \<open>currentText\<close> is
  \<open>sourceFile.getFullText()\<close>.
\<close>

definition insertIntoSyntaxList ::
  "(string \<Rightarrow> node) \<Rightarrow> node \<Rightarrow> string \<Rightarrow> int \<Rightarrow> string \<Rightarrow> node \<Rightarrow> int \<Rightarrow> int
     \<Rightarrow> registry \<Rightarrow> outcome" where
  "insertIntoSyntaxList createTempSourceFileFromText sourceFile currentText insertPos newText
       syntaxList' childIndex' insertItemsCount' s =
     (let syntaxListChildren = getChildren syntaxList' in
      if childIndex' < 0 \<or> childIndex' > int (length syntaxListChildren)
      then (Some (ArgumentError (length syntaxListChildren) childIndex'), s)
      else
        (let tempSourceFile =
               createTempSourceFileFromText (newFileText currentText insertPos newText)
         in handleNode
              \<lparr>syntaxList = syntaxList', syntaxListParent = getParent syntaxList',
               childIndex = childIndex', insertItemsCount = insertItemsCount'\<rparr>
              (Some sourceFile) tempSourceFile (getOrCreateWrapper tempSourceFile s)))"

section \<open>StraightReplacementNodeHandler\<close>

text \<open>
  Modelled from the spec: \<open>NodeHandlerHelper.handleForValues\<close> is not among the sources.
  Section 4.2, step 4: the pair of a current child and the new child at the same position
  is handed to this same handler (``recurses into each remaining pair via this same
  dispatch''). The new child is \<open>next().value\<close> of the iterator, so it is \<open>undefined\<close>
  once the new children have run out. Every \<open>next()\<close> that reaches a new child obtains
  the wrapper of that child, the one of the check after the loop too.
\<close>

fun straightHandleNode :: "node option \<Rightarrow> node option \<Rightarrow> registry \<Rightarrow> outcome"
  and straightChildren :: "node list \<Rightarrow> node list \<Rightarrow> registry \<Rightarrow> outcome" where
  "straightHandleNode None newNode s = (Some TypeError, s)"
| "straightHandleNode (Some currentNode) None s = (Some TypeError, s)"
| "straightHandleNode (Some (Node i k p e par currentChildren)) (Some newNode) s =
     (if k \<noteq> getKind newNode
      then (Some (InvalidOperationError (Node i k p e par currentChildren) newNode), s)
      else (case straightChildren currentChildren (getChildren newNode) s of
              (Some err, s') \<Rightarrow> (Some err, s')
            | (None, s') \<Rightarrow> replaceCompilerNode (Node i k p e par currentChildren) newNode s'))"
| "straightChildren [] newNodeChildren s =
     (if newNodeChildren \<noteq> [] then (Some LeftOverError, wrapNext newNodeChildren s)
      else (None, s))"
| "straightChildren (currentNodeChild # rest) newNodeChildren s =
     (case straightHandleNode (Some currentNodeChild) (nextValue newNodeChildren)
             (wrapNext newNodeChildren s) of
        (Some err, s') \<Rightarrow> (Some err, s')
      | (None, s') \<Rightarrow> straightChildren rest (advance newNodeChildren) s')"

section \<open>The calls a walk makes\<close>

text \<open>
  A call is one of the handlers applied to a pair of nodes, or one of their loops at the
  point it has reached (the iterator over the one side, the children still to visit on
  the other).
\<close>

datatype call =
    HandleNode "node option" node
  | HandleNodeChildren "node list" "node list"
  | HandleSyntaxList "node option" node
  | HandleSyntaxListChildren int "node list" "node list"
  | StraightHandleNode "node option" "node option"
  | StraightChildren "node list" "node list"

fun run :: "editArgs \<Rightarrow> call \<Rightarrow> registry \<Rightarrow> outcome" where
  "run env (HandleNode c n) s = handleNode env c n s"
| "run env (HandleNodeChildren it ns) s = handleNodeChildren env it ns s"
| "run env (HandleSyntaxList c n) s = handleSyntaxList env c n s"
| "run env (HandleSyntaxListChildren i it ns) s = handleSyntaxListChildren env i it ns s"
| "run env (StraightHandleNode c n) s = straightHandleNode c n s"
| "run env (StraightChildren cs it) s = straightChildren cs it s"

text \<open>
  \<open>invokes env (a, s) (b, s')\<close>: running \<open>a\<close> from the registry \<open>s\<close> makes the call
  \<open>b\<close>, which starts from the registry \<open>s'\<close>. One rule for each call in the bodies of
  the handlers; the callee starts once the wrappers of the new children it is given have
  been obtained, and the next round of a loop is made once the call of this round has
  returned without an error.
\<close>

inductive invokes :: "editArgs \<Rightarrow> call \<times> registry \<Rightarrow> call \<times> registry \<Rightarrow> bool"
  for env :: editArgs where
  node_children:
    "getKind c = getKind n \<Longrightarrow>
     invokes env (HandleNode (Some c) n, s) (HandleNodeChildren (getChildren c) (getChildren n), s)"
| child_list:
    "isSyntaxListChild env (getOrCreateWrapper nc s) nc \<Longrightarrow>
     invokes env (HandleNodeChildren it (nc # rest), s)
       (HandleSyntaxList (nextValue it) nc, getOrCreateWrapper nc s)"
| child_node:
    "\<not> isSyntaxListChild env (getOrCreateWrapper nc s) nc \<Longrightarrow>
     invokes env (HandleNodeChildren it (nc # rest), s)
       (HandleNode (nextValue it) nc, getOrCreateWrapper nc s)"
| child_list_next:
    "isSyntaxListChild env (getOrCreateWrapper nc s) nc \<Longrightarrow>
     handleSyntaxList env (nextValue it) nc (getOrCreateWrapper nc s) = (None, s') \<Longrightarrow>
     invokes env (HandleNodeChildren it (nc # rest), s) (HandleNodeChildren (advance it) rest, s')"
| child_node_next:
    "\<not> isSyntaxListChild env (getOrCreateWrapper nc s) nc \<Longrightarrow>
     handleNode env (nextValue it) nc (getOrCreateWrapper nc s) = (None, s') \<Longrightarrow>
     invokes env (HandleNodeChildren it (nc # rest), s) (HandleNodeChildren (advance it) rest, s')"
| list_children:
    "invokes env (HandleSyntaxList (Some c) n, s)
       (HandleSyntaxListChildren 0 (getChildren c) (getChildren n), wrapChildren (getChildren n) s)"
| item_skipped:
    "inInsertedRange env i \<Longrightarrow>
     invokes env (HandleSyntaxListChildren i it (nc # rest), s)
       (HandleSyntaxListChildren (i + 1) it rest, s)"
| item_node:
    "\<not> inInsertedRange env i \<Longrightarrow>
     invokes env (HandleSyntaxListChildren i it (nc # rest), s) (HandleNode (nextValue it) nc, s)"
| item_next:
    "\<not> inInsertedRange env i \<Longrightarrow> handleNode env (nextValue it) nc s = (None, s') \<Longrightarrow>
     invokes env (HandleSyntaxListChildren i it (nc # rest), s)
       (HandleSyntaxListChildren (i + 1) (advance it) rest, s')"
| straight_children:
    "getKind c = getKind n \<Longrightarrow>
     invokes env (StraightHandleNode (Some c) (Some n), s)
       (StraightChildren (getChildren c) (getChildren n), s)"
| straight_child:
    "invokes env (StraightChildren (cc # rest) it, s)
       (StraightHandleNode (Some cc) (nextValue it), wrapNext it s)"
| straight_next:
    "straightHandleNode (Some cc) (nextValue it) (wrapNext it s) = (None, s') \<Longrightarrow>
     invokes env (StraightChildren (cc # rest) it, s) (StraightChildren rest (advance it), s')"

section \<open>The splice walk in the words of the specification\<close>

text \<open>
  Section 4.3: the candidate children outside \<open>[offset, offset + insertedCount)\<close> are
  paired, in order, with the pre-edit children taken from the cursor, and each pair goes
  to \<open>handleNode\<close>; the candidate children inside the range have no part in the rounds.
  \<open>hasWrapper\<close>: the registry has a wrapper for the node.
\<close>

definition hasWrapper :: "registry \<Rightarrow> node \<Rightarrow> bool" where
  "hasWrapper s n = (nodeCache s (ident n) \<noteq> None \<or> ident n \<in> made s)"

fun outsideInsertedRange :: "editArgs \<Rightarrow> int \<Rightarrow> node list \<Rightarrow> node list" where
  "outsideInsertedRange env i [] = []"
| "outsideInsertedRange env i (candidate # rest) =
     (if childIndex env \<le> i \<and> i < childIndex env + insertItemsCount env
      then outsideInsertedRange env (i + 1) rest
      else candidate # outsideInsertedRange env (i + 1) rest)"

fun handlePairs :: "editArgs \<Rightarrow> node list \<Rightarrow> node list \<Rightarrow> registry \<Rightarrow> outcome" where
  "handlePairs env cursor [] s = (None, s)"
| "handlePairs env cursor (candidate # rest) s =
     (case handleNode env (nextValue cursor) candidate s of
        (Some err, s') \<Rightarrow> (Some err, s')
      | (None, s') \<Rightarrow> handlePairs env (advance cursor) rest s')"

section \<open>A small file\<close>

text \<open>
  The text \<open>A;\<close>: a file with its list of statements and the end-of-file token, one
  statement made of an identifier and a semicolon. \<open>oldFile\<close> is the parsed tree, the
  wrappers 1 to 6 are the nodes the caller holds, and \<open>registry0\<close> is the registry that
  goes with them.
\<close>

definition oldIdent :: node where "oldIdent = Node 104 75 0 1 (Some (NodeRef 103 0 20)) []"
definition oldSemi :: node where "oldSemi = Node 105 26 1 2 (Some (NodeRef 103 0 20)) []"
definition oldStmt :: node where
  "oldStmt = Node 103 20 0 2 (Some (NodeRef 102 0 1)) [oldIdent, oldSemi]"
definition oldList :: node where "oldList = Node 102 1 0 2 (Some (NodeRef 101 0 300)) [oldStmt]"
definition oldEof :: node where "oldEof = Node 106 2 2 2 (Some (NodeRef 101 0 300)) []"
definition oldFile :: node where "oldFile = Node 101 300 0 2 None [oldList, oldEof]"

definition identWrapper :: node where "identWrapper = Node 4 75 0 1 (Some (NodeRef 3 0 20)) []"
definition semiWrapper :: node where "semiWrapper = Node 5 26 1 2 (Some (NodeRef 3 0 20)) []"
definition stmtWrapper :: node where
  "stmtWrapper = Node 3 20 0 2 (Some (NodeRef 2 0 1)) [identWrapper, semiWrapper]"
definition listWrapper :: node where
  "listWrapper = Node 2 1 0 2 (Some (NodeRef 1 0 300)) [stmtWrapper]"
definition eofWrapper :: node where "eofWrapper = Node 6 2 2 2 (Some (NodeRef 1 0 300)) []"
definition fileWrapper :: node where "fileWrapper = Node 1 300 0 2 None [listWrapper, eofWrapper]"

definition registry0 :: registry where
  "registry0 =
     \<lparr>compilerNodeOf = [1 \<mapsto> oldFile, 2 \<mapsto> oldList, 3 \<mapsto> oldStmt, 4 \<mapsto> oldIdent,
                         5 \<mapsto> oldSemi, 6 \<mapsto> oldEof],
      nodeCache = [101 \<mapsto> 1, 102 \<mapsto> 2, 103 \<mapsto> 3, 104 \<mapsto> 4, 105 \<mapsto> 5, 106 \<mapsto> 6],
      forgotten = {}, made = {}\<rparr>"

text \<open>The tree parsed from \<open>A;B;\<close>, the text after \<open>B;\<close> was inserted at position 2.\<close>

definition newIdentA :: node where "newIdentA = Node 204 75 0 1 (Some (NodeRef 203 0 20)) []"
definition newSemiA :: node where "newSemiA = Node 205 26 1 2 (Some (NodeRef 203 0 20)) []"
definition newStmtA :: node where
  "newStmtA = Node 203 20 0 2 (Some (NodeRef 202 0 1)) [newIdentA, newSemiA]"
definition newIdentB :: node where "newIdentB = Node 208 75 2 3 (Some (NodeRef 207 2 20)) []"
definition newSemiB :: node where "newSemiB = Node 209 26 3 4 (Some (NodeRef 207 2 20)) []"
definition newStmtB :: node where
  "newStmtB = Node 207 20 2 4 (Some (NodeRef 202 0 1)) [newIdentB, newSemiB]"
definition newList :: node where
  "newList = Node 202 1 0 4 (Some (NodeRef 201 0 300)) [newStmtA, newStmtB]"
definition newEof :: node where "newEof = Node 206 2 4 4 (Some (NodeRef 201 0 300)) []"
definition newFile :: node where "newFile = Node 201 300 0 4 None [newList, newEof]"

text \<open>The variables of an edit of the list of that file.\<close>

definition editAt :: "int \<Rightarrow> int \<Rightarrow> editArgs" where
  "editAt i n =
     \<lparr>syntaxList = listWrapper, syntaxListParent = getParent listWrapper,
      childIndex = i, insertItemsCount = n\<rparr>"

text \<open>A statement of another kind where \<open>A;\<close> stood.\<close>

definition otherStmt :: node where
  "otherStmt = Node 203 21 0 2 (Some (NodeRef 202 0 1)) [newIdentA, newSemiA]"

definition otherList :: node where
  "otherList = Node 202 1 0 4 (Some (NodeRef 201 0 300)) [otherStmt, newStmtB]"

definition otherFile :: node where
  "otherFile = Node 201 300 0 4 None [otherList, newEof]"

text \<open>
  The tree parsed from \<open>BA;\<close>, the text after \<open>B\<close> was inserted at position 0: still one
  statement, whose identifier is now \<open>BA\<close>.
\<close>

definition mergedIdent :: node where "mergedIdent = Node 204 75 0 2 (Some (NodeRef 203 0 20)) []"
definition mergedSemi :: node where "mergedSemi = Node 205 26 2 3 (Some (NodeRef 203 0 20)) []"
definition mergedStmt :: node where
  "mergedStmt = Node 203 20 0 3 (Some (NodeRef 202 0 1)) [mergedIdent, mergedSemi]"
definition mergedList :: node where
  "mergedList = Node 202 1 0 3 (Some (NodeRef 201 0 300)) [mergedStmt]"
definition mergedEof :: node where "mergedEof = Node 206 2 3 3 (Some (NodeRef 201 0 300)) []"
definition mergedFile :: node where "mergedFile = Node 201 300 0 3 None [mergedList, mergedEof]"

text \<open>
  The tree parsed from \<open>A//;\<close>, the text after \<open>//\<close> was inserted at position 1: the
  semicolon is inside a comment now, and the statement has the identifier as its only
  child.
\<close>

definition bareIdent :: node where "bareIdent = Node 204 75 0 1 (Some (NodeRef 203 0 20)) []"
definition bareStmt :: node where "bareStmt = Node 203 20 0 1 (Some (NodeRef 202 0 1)) [bareIdent]"
definition bareList :: node where "bareList = Node 202 1 0 1 (Some (NodeRef 201 0 300)) [bareStmt]"
definition bareEof :: node where "bareEof = Node 206 2 1 4 (Some (NodeRef 201 0 300)) []"
definition bareFile :: node where "bareFile = Node 201 300 0 4 None [bareList, bareEof]"

text \<open>The tree parsed from \<open>A;\<close> once more: the content of the first parse in new objects.\<close>

fun renumber :: "(nat \<Rightarrow> nat) \<Rightarrow> node \<Rightarrow> node" where
  "renumber f (Node i k p e par cs) =
     Node (f i) k p e (map_option (\<lambda>r. NodeRef (f (refIdent r)) (refPos r) (refKind r)) par)
       (map (renumber f) cs)"

definition againFile :: node where
  "againFile = renumber (\<lambda>i. i + 200) oldFile"

text \<open>
  A second file, the text \<open>A;B;\<close>. Its wrappers 201 to 209 are the nodes of \<open>newFile\<close>,
  as they are after the insertion of \<open>B;\<close>, and \<open>registryAB\<close> holds a parsed node for each
  of them. \<open>callFile\<close> is the tree parsed from \<open>A;B();\<close>, the text after \<open>()\<close> was inserted
  at position 3: the second statement is a call now.
\<close>

definition registryAB :: registry where
  "registryAB =
     \<lparr>compilerNodeOf =
        [201 \<mapsto> renumber (\<lambda>i. i + 300) newFile, 202 \<mapsto> renumber (\<lambda>i. i + 300) newList,
         203 \<mapsto> renumber (\<lambda>i. i + 300) newStmtA, 204 \<mapsto> renumber (\<lambda>i. i + 300) newIdentA,
         205 \<mapsto> renumber (\<lambda>i. i + 300) newSemiA, 206 \<mapsto> renumber (\<lambda>i. i + 300) newEof,
         207 \<mapsto> renumber (\<lambda>i. i + 300) newStmtB, 208 \<mapsto> renumber (\<lambda>i. i + 300) newIdentB,
         209 \<mapsto> renumber (\<lambda>i. i + 300) newSemiB],
      nodeCache = [501 \<mapsto> 201, 502 \<mapsto> 202, 503 \<mapsto> 203, 504 \<mapsto> 204, 505 \<mapsto> 205,
                    506 \<mapsto> 206, 507 \<mapsto> 207, 508 \<mapsto> 208, 509 \<mapsto> 209],
      forgotten = {}, made = {}\<rparr>"

definition callStmtA :: node where "callStmtA = renumber (\<lambda>i. i + 400) newStmtA"
definition callIdent :: node where "callIdent = Node 609 75 2 3 (Some (NodeRef 608 2 189)) []"
definition callOpen :: node where "callOpen = Node 610 17 3 4 (Some (NodeRef 608 2 189)) []"
definition callArgs :: node where "callArgs = Node 611 1 4 4 (Some (NodeRef 608 2 189)) []"
definition callClose :: node where "callClose = Node 612 18 4 5 (Some (NodeRef 608 2 189)) []"
definition callExpr :: node where
  "callExpr = Node 608 189 2 5 (Some (NodeRef 607 2 20)) [callIdent, callOpen, callArgs, callClose]"
definition callSemi :: node where "callSemi = Node 613 26 5 6 (Some (NodeRef 607 2 20)) []"
definition callStmtB :: node where
  "callStmtB = Node 607 20 2 6 (Some (NodeRef 602 0 1)) [callExpr, callSemi]"
definition callList :: node where
  "callList = Node 602 1 0 6 (Some (NodeRef 601 0 300)) [callStmtA, callStmtB]"
definition callEof :: node where "callEof = Node 606 2 6 6 (Some (NodeRef 601 0 300)) []"
definition callFile :: node where "callFile = Node 601 300 0 6 None [callList, callEof]"

definition editAB :: "int \<Rightarrow> int \<Rightarrow> editArgs" where
  "editAB i n =
     \<lparr>syntaxList = newList, syntaxListParent = getParent newList,
      childIndex = i, insertItemsCount = n\<rparr>"


section \<open>Trees that differ by an insertion into the list\<close>

text \<open>
  Invariants I4 and I5 of the specification, for a tree of wrappers and a freshly parsed
  tree. Outside the list the two trees have the same shape: the same kind and the same
  number of children at each position. In the list, the candidate children outside the
  inserted range correspond one to one, in order, to the pre-edit children. The list is
  the node of the new tree that has the start position and the kind of the pre-edit list,
  under a parent that has the start position and the kind of the pre-edit parent.
\<close>

definition matchesList :: "editArgs \<Rightarrow> node \<Rightarrow> bool" where
  "matchesList env n =
     (areNodesEqual (Some (refOf n)) (Some (refOf (syntaxList env)))
      \<and> areNodesEqual (getParent n) (syntaxListParent env))"

fun aligned :: "editArgs \<Rightarrow> node \<Rightarrow> node \<Rightarrow> bool"
  and alignedChildren :: "editArgs \<Rightarrow> node list \<Rightarrow> node list \<Rightarrow> bool"
  and alignedList :: "editArgs \<Rightarrow> node \<Rightarrow> node \<Rightarrow> bool"
  and alignedItems :: "editArgs \<Rightarrow> int \<Rightarrow> node list \<Rightarrow> node list \<Rightarrow> bool"
where
  "aligned env c (Node i k p e par ns) = (getKind c = k \<and> alignedChildren env (getChildren c) ns)"
| "alignedChildren env [] [] = True"
| "alignedChildren env (c # cs) [] = False"
| "alignedChildren env [] (n # ns) = False"
| "alignedChildren env (c # cs) (n # ns) =
     ((if matchesList env n then alignedList env c n else aligned env c n)
      \<and> alignedChildren env cs ns)"
| "alignedList env c (Node i k p e par ns) =
     (getKind c = k \<and> alignedItems env 0 (getChildren c) ns)"
| "alignedItems env i [] [] = True"
| "alignedItems env i (c # cs) [] = False"
| "alignedItems env i [] (n # ns) =
     (if inInsertedRange env i then alignedItems env (i + 1) [] ns else False)"
| "alignedItems env i (c # cs) (n # ns) =
     (if inInsertedRange env i then alignedItems env (i + 1) (c # cs) ns
      else aligned env c n \<and> alignedItems env (i + 1) cs ns)"

text \<open>
  The pairs of a wrapper and the node of the new tree that corresponds to it, children
  before their parent.
\<close>

fun partners :: "editArgs \<Rightarrow> node \<Rightarrow> node \<Rightarrow> (node \<times> node) list"
  and partnersChildren :: "editArgs \<Rightarrow> node list \<Rightarrow> node list \<Rightarrow> (node \<times> node) list"
  and partnersList :: "editArgs \<Rightarrow> node \<Rightarrow> node \<Rightarrow> (node \<times> node) list"
  and partnersItems :: "editArgs \<Rightarrow> int \<Rightarrow> node list \<Rightarrow> node list \<Rightarrow> (node \<times> node) list"
where
  "partners env c (Node i k p e par ns) =
     partnersChildren env (getChildren c) ns @ [(c, Node i k p e par ns)]"
| "partnersChildren env cs [] = []"
| "partnersChildren env [] (n # ns) = []"
| "partnersChildren env (c # cs) (n # ns) =
     (if matchesList env n then partnersList env c n else partners env c n)
     @ partnersChildren env cs ns"
| "partnersList env c (Node i k p e par ns) =
     partnersItems env 0 (getChildren c) ns @ [(c, Node i k p e par ns)]"
| "partnersItems env i cs [] = []"
| "partnersItems env i [] (n # ns) =
     (if inInsertedRange env i then partnersItems env (i + 1) [] ns else [])"
| "partnersItems env i (c # cs) (n # ns) =
     (if inInsertedRange env i then partnersItems env (i + 1) (c # cs) ns
      else partners env c n @ partnersItems env (i + 1) cs ns)"

text \<open>
  The nodes of the new tree that have no counterpart: the inserted children and all below
  them.
\<close>

fun inserted :: "editArgs \<Rightarrow> node \<Rightarrow> node \<Rightarrow> node list"
  and insertedChildren :: "editArgs \<Rightarrow> node list \<Rightarrow> node list \<Rightarrow> node list"
  and insertedList :: "editArgs \<Rightarrow> node \<Rightarrow> node \<Rightarrow> node list"
  and insertedItems :: "editArgs \<Rightarrow> int \<Rightarrow> node list \<Rightarrow> node list \<Rightarrow> node list"
where
  "inserted env c (Node i k p e par ns) = insertedChildren env (getChildren c) ns"
| "insertedChildren env cs [] = []"
| "insertedChildren env [] (n # ns) = []"
| "insertedChildren env (c # cs) (n # ns) =
     (if matchesList env n then insertedList env c n else inserted env c n)
     @ insertedChildren env cs ns"
| "insertedList env c (Node i k p e par ns) = insertedItems env 0 (getChildren c) ns"
| "insertedItems env i cs [] = []"
| "insertedItems env i [] (n # ns) =
     (if inInsertedRange env i then nodesOf n @ insertedItems env (i + 1) [] ns else [])"
| "insertedItems env i (c # cs) (n # ns) =
     (if inInsertedRange env i then nodesOf n @ insertedItems env (i + 1) (c # cs) ns
      else inserted env c n @ insertedItems env (i + 1) cs ns)"

text \<open>The same three notions for a call of the walk.\<close>

fun alignedCall :: "editArgs \<Rightarrow> call \<Rightarrow> bool" where
  "alignedCall env (HandleNode (Some c) n) = aligned env c n"
| "alignedCall env (HandleNodeChildren cs ns) = alignedChildren env cs ns"
| "alignedCall env (HandleSyntaxList (Some c) n) = alignedList env c n"
| "alignedCall env (HandleSyntaxListChildren i cs ns) = alignedItems env i cs ns"
| "alignedCall env other = False"

fun partnersOf :: "editArgs \<Rightarrow> call \<Rightarrow> (node \<times> node) list" where
  "partnersOf env (HandleNode (Some c) n) = partners env c n"
| "partnersOf env (HandleNodeChildren cs ns) = partnersChildren env cs ns"
| "partnersOf env (HandleSyntaxList (Some c) n) = partnersList env c n"
| "partnersOf env (HandleSyntaxListChildren i cs ns) = partnersItems env i cs ns"
| "partnersOf env other = []"

fun insertedOf :: "editArgs \<Rightarrow> call \<Rightarrow> node list" where
  "insertedOf env (HandleNode (Some c) n) = inserted env c n"
| "insertedOf env (HandleNodeChildren cs ns) = insertedChildren env cs ns"
| "insertedOf env (HandleSyntaxList (Some c) n) = insertedList env c n"
| "insertedOf env (HandleSyntaxListChildren i cs ns) = insertedItems env i cs ns"
| "insertedOf env other = []"

text \<open>
  \<open>keyStable\<close>: the wrappers of the list and of its parent show the position and the kind
  they showed when the edit started. \<open>keepsKey\<close>: a replacement that gives neither of the
  two wrappers a node of another position or kind.
\<close>

definition sameKey :: "nodeRef \<Rightarrow> nodeRef \<Rightarrow> bool" where
  "sameKey a b = (refPos a = refPos b \<and> refKind a = refKind b)"

definition keyStable :: "editArgs \<Rightarrow> registry \<Rightarrow> bool" where
  "keyStable env s =
     (sameKey (currentRef s (refOf (syntaxList env))) (refOf (syntaxList env))
      \<and> (case syntaxListParent env of
            None \<Rightarrow> True
          | Some parent \<Rightarrow> sameKey (currentRef s parent) parent))"

definition keepsKey :: "editArgs \<Rightarrow> node \<times> node \<Rightarrow> bool" where
  "keepsKey env pair =
     ((if ident (fst pair) = ident (syntaxList env)
       then sameKey (refOf (snd pair)) (refOf (syntaxList env)) else True)
      \<and> (case syntaxListParent env of
            None \<Rightarrow> True
          | Some parent \<Rightarrow>
              if ident (fst pair) = refIdent parent then sameKey (refOf (snd pair)) parent
              else True))"

text \<open>The replacements of a list of pairs, one after the other.\<close>

fun replaceAll :: "(node \<times> node) list \<Rightarrow> registry \<Rightarrow> registry" where
  "replaceAll [] s = s"
| "replaceAll ((c, n) # ps) s = replaceAll ps (snd (replaceCompilerNode c n s))"

text \<open>The registry without its record of the wrappers made.\<close>

definition core :: "registry \<Rightarrow> registry" where
  "core s = s\<lparr>made := {}\<rparr>"

text \<open>
  The outcome of a walk that went through without an error and, wrappers made apart, did
  to the registry what the replacements of the pairs do.
\<close>

definition replaces :: "outcome \<Rightarrow> (node \<times> node) list \<Rightarrow> registry \<Rightarrow> bool" where
  "replaces out ps s = (fst out = None \<and> core (snd out) = replaceAll ps (core s))"

text \<open>
  An offset of the text before the insertion of \<open>len\<close> characters at \<open>p\<close>, and the same
  offset after it: what lies before \<open>p\<close> stays, what lies behind \<open>p\<close> moves by \<open>len\<close>, and
  an offset at \<open>p\<close> itself does the one or the other. \<open>shiftedSpan\<close>: the start and the end
  of the second node are those of the first, moved in this way.
\<close>

definition movedBy :: "int \<Rightarrow> int \<Rightarrow> int \<Rightarrow> int \<Rightarrow> bool" where
  "movedBy p len before after =
     (if before < p then after = before
      else if p < before then after = before + len
      else after = before \<or> after = before + len)"

definition shiftedSpan :: "int \<Rightarrow> int \<Rightarrow> node \<times> node \<Rightarrow> bool" where
  "shiftedSpan p len pair =
     (movedBy p len (getPos (fst pair)) (getPos (snd pair))
      \<and> movedBy p len (getEnd (fst pair)) (getEnd (snd pair)))"

text \<open>
  Two trees with the same content: kinds, spans and children, under parents of the same
  position and kind, whatever the objects.
\<close>

fun sameContent :: "node \<Rightarrow> node \<Rightarrow> bool"
  and sameContents :: "node list \<Rightarrow> node list \<Rightarrow> bool" where
  "sameContent (Node i k p e par cs) n =
     (k = getKind n \<and> p = getPos n \<and> e = getEnd n \<and> areNodesEqual par (getParent n)
      \<and> sameContents cs (getChildren n))"
| "sameContents [] [] = True"
| "sameContents (c # cs) [] = False"
| "sameContents [] (n # ns) = False"
| "sameContents (c # cs) (n # ns) = (sameContent c n \<and> sameContents cs ns)"

section \<open>Properties\<close>

subsection \<open>Unfolding the handlers and evaluating the small file\<close>

lemmas small_file_defs = oldIdent_def oldSemi_def oldStmt_def oldList_def oldEof_def oldFile_def
  identWrapper_def semiWrapper_def stmtWrapper_def listWrapper_def eofWrapper_def fileWrapper_def
  registry0_def newIdentA_def newSemiA_def newStmtA_def newIdentB_def newSemiB_def newStmtB_def
  newList_def newEof_def newFile_def editAt_def otherStmt_def otherList_def otherFile_def
  mergedIdent_def mergedSemi_def mergedStmt_def mergedList_def mergedEof_def mergedFile_def
  bareIdent_def bareStmt_def bareList_def bareEof_def bareFile_def againFile_def

lemmas second_file_defs = newIdentA_def newSemiA_def newStmtA_def newIdentB_def newSemiB_def
  newStmtB_def newList_def newEof_def newFile_def registryAB_def callStmtA_def callIdent_def
  callOpen_def callArgs_def callClose_def callExpr_def callSemi_def callStmtB_def callList_def
  callEof_def callFile_def editAB_def

lemmas walk_defs = insertIntoSyntaxList_def isSyntaxListChild_def matchesList_def currentRef_def
  refOf_def nextValue_def advance_def getOrCreateWrapper_def wrapNext_def
  inInsertedRange_def replaceCompilerNode_def dropOld_def identsOf_def Let_def

lemma handleNode_Some:
  "handleNode env (Some c) n s =
     (if getKind c \<noteq> getKind n then (Some (InvalidOperationError c n), s)
      else (case handleNodeChildren env (getChildren c) (getChildren n) s of
              (Some err, s') \<Rightarrow> (Some err, s')
            | (None, s') \<Rightarrow> replaceCompilerNode c n s'))"
  by (cases n) auto

lemma handleSyntaxList_Some:
  "handleSyntaxList env (Some c) n s =
     (case handleSyntaxListChildren env 0 (getChildren c) (getChildren n)
             (wrapChildren (getChildren n) s) of
        (Some err, s') \<Rightarrow> (Some err, s')
      | (None, s') \<Rightarrow> replaceCompilerNode c n s')"
  by (cases n) auto

lemma straightHandleNode_Some:
  "straightHandleNode (Some c) (Some n) s =
     (if getKind c \<noteq> getKind n then (Some (InvalidOperationError c n), s)
      else (case straightChildren (getChildren c) (getChildren n) s of
              (Some err, s') \<Rightarrow> (Some err, s')
            | (None, s') \<Rightarrow> replaceCompilerNode c n s'))"
  by (cases c) auto

subsection \<open>Obtaining a wrapper changes nothing but the record of the wrappers made\<close>

lemma getOrCreateWrapper_fields [simp]:
  "compilerNodeOf (getOrCreateWrapper n s) = compilerNodeOf s"
  "nodeCache (getOrCreateWrapper n s) = nodeCache s"
  "forgotten (getOrCreateWrapper n s) = forgotten s"
  by (simp_all add: getOrCreateWrapper_def)

lemma wrapChildren_fields [simp]:
  "compilerNodeOf (wrapChildren ns s) = compilerNodeOf s"
  "nodeCache (wrapChildren ns s) = nodeCache s"
  "forgotten (wrapChildren ns s) = forgotten s"
  by (induction ns arbitrary: s) simp_all

lemma wrapNext_fields [simp]:
  "compilerNodeOf (wrapNext it s) = compilerNodeOf s"
  "nodeCache (wrapNext it s) = nodeCache s"
  "forgotten (wrapNext it s) = forgotten s"
  by (simp_all add: wrapNext_def split: list.splits)

lemma made_getOrCreateWrapper: "made s \<subseteq> made (getOrCreateWrapper n s)"
  by (auto simp: getOrCreateWrapper_def)

lemma made_wrapChildren: "made s \<subseteq> made (wrapChildren ns s)"
proof (induction ns arbitrary: s)
  case Nil
  show ?case by simp
next
  case (Cons n ns)
  from Cons [of "getOrCreateWrapper n s"] made_getOrCreateWrapper [of s n] show ?case by auto
qed

lemma made_wrapNext: "made s \<subseteq> made (wrapNext it s)"
  by (cases it) (simp_all add: wrapNext_def made_getOrCreateWrapper)

lemma wrapChildren_hasWrapper:
  "n \<in> set ns \<Longrightarrow> hasWrapper (wrapChildren ns s) n"
proof (induction ns arbitrary: s)
  case Nil
  then show ?case by simp
next
  case (Cons a ns)
  show ?case
  proof (cases "n \<in> set ns")
    case True
    with Cons.IH show ?thesis by simp
  next
    case False
    with Cons.prems have "n = a" by simp
    then have "hasWrapper (getOrCreateWrapper a s) n"
      by (simp add: hasWrapper_def getOrCreateWrapper_def)
    with made_wrapChildren [of "getOrCreateWrapper a s" ns] show ?thesis
      by (auto simp: hasWrapper_def)
  qed
qed

lemma wrapChildren_made:
  "n \<in> set ns \<Longrightarrow> nodeCache s (ident n) = None \<Longrightarrow> ident n \<in> made (wrapChildren ns s)"
  using wrapChildren_hasWrapper [of n ns s] by (simp add: hasWrapper_def)

lemma currentRef_wrapped [simp]:
  "currentRef (getOrCreateWrapper n s) = currentRef s"
  "currentRef (wrapChildren ns s) = currentRef s"
  by (rule ext, simp add: currentRef_def)+

lemma isSyntaxListChild_wrapped [simp]:
  "isSyntaxListChild env (getOrCreateWrapper n s) nc = isSyntaxListChild env s nc"
  by (simp add: isSyntaxListChild_def)

subsection \<open>The patched text\<close>

lemma substring_prefix:
  "0 \<le> p \<Longrightarrow> p \<le> int (length t) \<Longrightarrow> substring t 0 p = take (nat p) t"
  by (simp add: substring_def clampIndex_def Let_def)

lemma substringFrom_suffix:
  "0 \<le> p \<Longrightarrow> p \<le> int (length t) \<Longrightarrow> substringFrom t p = drop (nat p) t"
  by (simp add: substringFrom_def clampIndex_def)

text \<open>
  C7. For a text \<open>t\<close>, a position \<open>p\<close> with \<open>0 \<le> p \<le> length t\<close> and an inserted text,
  the text handed to the parser is the prefix of \<open>t\<close> up to \<open>p\<close>, then the inserted text,
  then the rest of \<open>t\<close>: the edit is the one made with a parser that is given that text
  whatever it is asked to parse.
\<close>

theorem patched_text_is_splice:
  assumes "0 \<le> p" and "p \<le> int (length t)"
  shows "newFileText t p added = take (nat p) t @ added @ drop (nat p) t
       \<and> insertIntoSyntaxList parse sf t p added sl ci cnt s
         = insertIntoSyntaxList (\<lambda>_. parse (take (nat p) t @ added @ drop (nat p) t))
             sf t p added sl ci cnt s"
proof -
  have eq: "newFileText t p added = take (nat p) t @ added @ drop (nat p) t"
    using assms by (simp add: newFileText_def substring_prefix substringFrom_suffix)
  then show ?thesis
    by (simp add: insertIntoSyntaxList_def Let_def)
qed

theorem patched_text_is_splice_witness:
  "(0::int) \<le> 2 \<and> 2 \<le> int (length ''A;'') \<and> newFileText ''A;'' 2 ''B;'' = ''A;B;''"
  using patched_text_is_splice [of 2 "''A;''" "''B;''"] by simp

subsection \<open>The range check on the child index\<close>

text \<open>
  C10. With a child index below 0 or above the number of children of the syntax list,
  \<open>insertIntoSyntaxList\<close> throws the \<open>ArgumentError\<close> and nothing else happens: the
  result does not depend on the parser, and the registry it returns is the one it was
  given, so no wrapper has changed.
\<close>

theorem childIndex_out_of_range_rejected:
  assumes "ci < 0 \<or> ci > int (length (getChildren sl))"
  shows "insertIntoSyntaxList parse sf t p added sl ci cnt s
           = (Some (ArgumentError (length (getChildren sl)) ci), s)"
  using assms by (auto simp add: insertIntoSyntaxList_def Let_def)

theorem childIndex_out_of_range_rejected_witness:
  "((2::int) < 0 \<or> 2 > int (length (getChildren listWrapper)))
   \<and> insertIntoSyntaxList (\<lambda>_. newFile) fileWrapper ''A;'' 2 ''B;'' listWrapper 2 1 registry0
       = (Some (ArgumentError 1 2), registry0)"
  using childIndex_out_of_range_rejected [of 2 listWrapper "\<lambda>_. newFile" fileWrapper "''A;''" 2
      "''B;''" 1 registry0]
  by (simp add: listWrapper_def)

subsection \<open>Errors are not caught\<close>

lemma invokes_error:
  assumes "invokes env (a, s) (b, s')" and "run env b s' = (Some e, s'')"
  shows "run env a s = (Some e, s'')"
  using assms
  by (induction "(a, s)" "(b, s')" rule: invokes.induct)
     (auto simp: handleNode_Some handleSyntaxList_Some straightHandleNode_Some)

lemma reaches_error:
  assumes "(invokes env)\<^sup>*\<^sup>* (a, s) (b, s')" and "run env b s' = (Some e, s'')"
  shows "run env a s = (Some e, s'')"
  using assms
proof (induction "(a, s)" arbitrary: a s rule: converse_rtranclp_induct)
  case base
  then show ?case by simp
next
  case (step z)
  obtain c t where z: "z = (c, t)" by (cases z)
  from step(3)[OF z step(4)] have "run env c t = (Some e, s'')" .
  with step(1) z show ?case using invokes_error by blast
qed

text \<open>
  C2. Whenever the walk reaches a pair of nodes of different kinds, in \<open>handleNode\<close> of
  \<open>insertIntoSyntaxList\<close> or in the straight replacement handler, the whole walk fails with
  the \<open>InvalidOperationError\<close> made from these two nodes, and the registry is the one the
  walk had reached at that pair: nothing catches the error and nothing is repaired.
\<close>

theorem kind_mismatch_is_fatal:
  assumes "(invokes env)\<^sup>*\<^sup>* (a, s) (b, s')"
    and "b = HandleNode (Some c) n \<or> b = StraightHandleNode (Some c) (Some n)"
    and "getKind c \<noteq> getKind n"
  shows "run env a s = (Some (InvalidOperationError c n), s')"
proof -
  have "run env b s' = (Some (InvalidOperationError c n), s')"
    using assms(2,3) by (auto simp: handleNode_Some straightHandleNode_Some)
  with assms(1) show ?thesis by (rule reaches_error)
qed

theorem kind_mismatch_is_fatal_witness:
  "(invokes (editAt 1 1))\<^sup>*\<^sup>* (HandleNode (Some fileWrapper) otherFile, registry0)
       (HandleNode (Some stmtWrapper) otherStmt,
        wrapChildren [otherStmt, newStmtB] (getOrCreateWrapper otherList registry0))
   \<and> getKind stmtWrapper \<noteq> getKind otherStmt
   \<and> handleNode (editAt 1 1) (Some fileWrapper) otherFile registry0
       = (Some (InvalidOperationError stmtWrapper otherStmt),
          wrapChildren [otherStmt, newStmtB] (getOrCreateWrapper otherList registry0))"
proof -
  let ?env = "editAt 1 1"
  let ?s1 = "getOrCreateWrapper otherList registry0"
  let ?s2 = "wrapChildren [otherStmt, newStmtB] ?s1"
  have 1: "invokes ?env (HandleNode (Some fileWrapper) otherFile, registry0)
             (HandleNodeChildren [listWrapper, eofWrapper] [otherList, newEof], registry0)"
    using node_children [of fileWrapper otherFile ?env registry0]
    by (simp add: fileWrapper_def otherFile_def)
  have "isSyntaxListChild ?env registry0 otherList"
    by (simp add: small_file_defs walk_defs)
  then have 2: "invokes ?env (HandleNodeChildren [listWrapper, eofWrapper] [otherList, newEof], registry0)
             (HandleSyntaxList (Some listWrapper) otherList, ?s1)"
    using child_list [where env = ?env and nc = otherList and it = "[listWrapper, eofWrapper]"
        and rest = "[newEof]" and s = registry0]
    by (simp add: nextValue_def)
  have 3: "invokes ?env (HandleSyntaxList (Some listWrapper) otherList, ?s1)
             (HandleSyntaxListChildren 0 [stmtWrapper] [otherStmt, newStmtB], ?s2)"
    using list_children [of ?env listWrapper otherList ?s1]
    by (simp add: listWrapper_def otherList_def)
  have 4: "invokes ?env (HandleSyntaxListChildren 0 [stmtWrapper] [otherStmt, newStmtB], ?s2)
             (HandleNode (Some stmtWrapper) otherStmt, ?s2)"
    using item_node [of ?env 0 "[stmtWrapper]" otherStmt "[newStmtB]" ?s2]
    by (simp add: inInsertedRange_def editAt_def nextValue_def)
  have reach: "(invokes ?env)\<^sup>*\<^sup>* (HandleNode (Some fileWrapper) otherFile, registry0)
       (HandleNode (Some stmtWrapper) otherStmt, ?s2)"
    using 1 2 3 4 by (meson rtranclp.rtrancl_into_rtrancl rtranclp.rtrancl_refl)
  have kinds: "getKind stmtWrapper \<noteq> getKind otherStmt"
    by (simp add: stmtWrapper_def otherStmt_def)
  from kind_mismatch_is_fatal [OF reach _ kinds] reach kinds show ?thesis by simp
qed

subsection \<open>Which pair goes to the splice walk\<close>

lemma isSyntaxListChild_iff:
  "isSyntaxListChild env s nc \<longleftrightarrow>
     getPos nc = refPos (currentRef s (refOf (syntaxList env)))
     \<and> getKind nc = refKind (currentRef s (refOf (syntaxList env)))
     \<and> (case (getParent nc, syntaxListParent env) of
          (None, None) \<Rightarrow> True
        | (Some a, Some b) \<Rightarrow>
            refPos a = refPos (currentRef s b) \<and> refKind a = refKind (currentRef s b)
        | _ \<Rightarrow> False)"
  by (auto simp: isSyntaxListChild_def refOf_def split: option.splits)

lemma matchesList_iff:
  "matchesList env nc \<longleftrightarrow>
     getPos nc = getPos (syntaxList env) \<and> getKind nc = getKind (syntaxList env)
     \<and> (case (getParent nc, syntaxListParent env) of
          (None, None) \<Rightarrow> True
        | (Some a, Some b) \<Rightarrow> refPos a = refPos b \<and> refKind a = refKind b
        | _ \<Rightarrow> False)"
  by (auto simp: matchesList_def refOf_def split: option.splits)

lemma keyStable_dispatch:
  "keyStable env s \<Longrightarrow> isSyntaxListChild env s nc = matchesList env nc"
  by (auto simp: keyStable_def sameKey_def isSyntaxListChild_iff matchesList_iff refOf_def
      split: option.splits)

text \<open>
  C8. The list that receives the change is the one the caller passes, a node of the
  pre-edit tree, together with its parent: with a valid index, \<open>insertIntoSyntaxList\<close> is
  the walk \<open>handleNode\<close> from the two roots, with that list and its parent for the
  variables the nested functions read, and \<open>handleNode\<close> runs its loop over the children
  once the kinds agree. In a round of that loop the pair of the next current child and a
  new child goes to \<open>handleSyntaxList\<close> when the new child has the start position and the
  kind the wrapper of that list shows and the parent of the new child has the start
  position and the kind the wrapper of the parent of that list shows (two absent parents
  count as equal), and to \<open>handleNode\<close> otherwise. As long as the two wrappers show what
  they showed before the edit, these are the start position and the kind of the pre-edit
  list and of its parent. Nothing else of the new tree is looked at.
\<close>

theorem splice_dispatch_condition:
  "handleNodeChildren env it (nc # rest) s =
     (case (if getPos nc = refPos (currentRef s (refOf (syntaxList env)))
               \<and> getKind nc = refKind (currentRef s (refOf (syntaxList env)))
               \<and> (case (getParent nc, syntaxListParent env) of
                    (None, None) \<Rightarrow> True
                  | (Some a, Some b) \<Rightarrow>
                      refPos a = refPos (currentRef s b) \<and> refKind a = refKind (currentRef s b)
                  | _ \<Rightarrow> False)
            then handleSyntaxList env (nextValue it) nc (getOrCreateWrapper nc s)
            else handleNode env (nextValue it) nc (getOrCreateWrapper nc s)) of
        (Some err, s') \<Rightarrow> (Some err, s')
      | (None, s') \<Rightarrow> handleNodeChildren env (advance it) rest s')
   \<and> (keyStable env s \<longrightarrow>
        handleNodeChildren env it (nc # rest) s =
          (case (if getPos nc = getPos (syntaxList env) \<and> getKind nc = getKind (syntaxList env)
                    \<and> (case (getParent nc, syntaxListParent env) of
                         (None, None) \<Rightarrow> True
                       | (Some a, Some b) \<Rightarrow> refPos a = refPos b \<and> refKind a = refKind b
                       | _ \<Rightarrow> False)
                 then handleSyntaxList env (nextValue it) nc (getOrCreateWrapper nc s)
                 else handleNode env (nextValue it) nc (getOrCreateWrapper nc s)) of
             (Some err, s') \<Rightarrow> (Some err, s')
           | (None, s') \<Rightarrow> handleNodeChildren env (advance it) rest s'))
   \<and> handleNode env (Some c) n s =
        (if getKind c \<noteq> getKind n then (Some (InvalidOperationError c n), s)
         else (case handleNodeChildren env (getChildren c) (getChildren n) s of
                 (Some err, s') \<Rightarrow> (Some err, s')
               | (None, s') \<Rightarrow> replaceCompilerNode c n s'))
   \<and> (0 \<le> ci \<and> ci \<le> int (length (getChildren sl)) \<longrightarrow>
        insertIntoSyntaxList parse sf t p added sl ci cnt s
          = handleNode \<lparr>syntaxList = sl, syntaxListParent = getParent sl,
                        childIndex = ci, insertItemsCount = cnt\<rparr>
              (Some sf) (parse (newFileText t p added))
              (getOrCreateWrapper (parse (newFileText t p added)) s))"
proof -
  have live: "handleNodeChildren env it (nc # rest) s =
     (case (if isSyntaxListChild env s nc
            then handleSyntaxList env (nextValue it) nc (getOrCreateWrapper nc s)
            else handleNode env (nextValue it) nc (getOrCreateWrapper nc s)) of
        (Some err, s') \<Rightarrow> (Some err, s')
      | (None, s') \<Rightarrow> handleNodeChildren env (advance it) rest s')"
    by simp
  have before: "handleNodeChildren env it (nc # rest) s =
     (case (if matchesList env nc
            then handleSyntaxList env (nextValue it) nc (getOrCreateWrapper nc s)
            else handleNode env (nextValue it) nc (getOrCreateWrapper nc s)) of
        (Some err, s') \<Rightarrow> (Some err, s')
      | (None, s') \<Rightarrow> handleNodeChildren env (advance it) rest s')"
    if "keyStable env s"
    using that live by (simp add: keyStable_dispatch)
  have run: "insertIntoSyntaxList parse sf t p added sl ci cnt s
          = handleNode \<lparr>syntaxList = sl, syntaxListParent = getParent sl,
                        childIndex = ci, insertItemsCount = cnt\<rparr>
              (Some sf) (parse (newFileText t p added))
              (getOrCreateWrapper (parse (newFileText t p added)) s)"
    if "0 \<le> ci \<and> ci \<le> int (length (getChildren sl))"
    using that by (simp add: insertIntoSyntaxList_def Let_def)
  show ?thesis
    unfolding isSyntaxListChild_iff [symmetric] matchesList_iff [symmetric]
    using live before run handleNode_Some [of env c n s] by blast
qed

theorem splice_dispatch_condition_witness:
  "keyStable (editAt 1 1) registry0
   \<and> handleNodeChildren (editAt 1 1) [listWrapper, eofWrapper] [newList, newEof] registry0
       = (case handleSyntaxList (editAt 1 1) (Some listWrapper) newList
                 (getOrCreateWrapper newList registry0) of
            (Some err, s') \<Rightarrow> (Some err, s')
          | (None, s') \<Rightarrow>
              handleNodeChildren (editAt 1 1) (advance [listWrapper, eofWrapper]) [newEof] s')
   \<and> (0::int) \<le> 1 \<and> 1 \<le> int (length (getChildren listWrapper))
   \<and> insertIntoSyntaxList (\<lambda>_. newFile) fileWrapper ''A;'' 2 ''B;'' listWrapper 1 1 registry0
       = handleNode (editAt 1 1) (Some fileWrapper) newFile (getOrCreateWrapper newFile registry0)
   \<and> fst (handleSyntaxList (editAt 1 1) (Some listWrapper) newList
             (getOrCreateWrapper newList registry0)) = None
   \<and> fst (handleNode (editAt 1 1) (Some listWrapper) newList
             (getOrCreateWrapper newList registry0)) = Some TypeError"
proof -
  have differ: "fst (handleSyntaxList (editAt 1 1) (Some listWrapper) newList
                       (getOrCreateWrapper newList registry0)) = None"
    "fst (handleNode (editAt 1 1) (Some listWrapper) newList
            (getOrCreateWrapper newList registry0)) = Some TypeError"
    by (simp_all add: small_file_defs walk_defs)
  have stable: "keyStable (editAt 1 1) registry0"
    by (simp add: small_file_defs walk_defs keyStable_def sameKey_def)
  have same: "getPos newList = getPos (syntaxList (editAt 1 1))"
    "getKind newList = getKind (syntaxList (editAt 1 1))"
    "(case (getParent newList, syntaxListParent (editAt 1 1)) of
        (None, None) \<Rightarrow> True
      | (Some a, Some b) \<Rightarrow> refPos a = refPos b \<and> refKind a = refKind b
      | _ \<Rightarrow> False)"
    by (simp_all add: editAt_def listWrapper_def newList_def)
  have valid: "(0::int) \<le> 1 \<and> 1 \<le> int (length (getChildren listWrapper))"
    by (simp add: listWrapper_def)
  have env: "\<lparr>syntaxList = listWrapper, syntaxListParent = getParent listWrapper,
               childIndex = 1, insertItemsCount = 1\<rparr> = editAt 1 1"
    by (simp add: editAt_def)
  note fact = splice_dispatch_condition [where env = "editAt 1 1"
      and it = "[listWrapper, eofWrapper]" and nc = newList and rest = "[newEof]"
      and s = registry0 and ci = 1 and sl = listWrapper and parse = "\<lambda>_. newFile"
      and sf = fileWrapper and t = "''A;''" and p = 2 and added = "''B;''" and cnt = 1]
  note round = fact [THEN conjunct2, THEN conjunct1, rule_format, OF stable]
  note whole = fact [THEN conjunct2, THEN conjunct2, THEN conjunct2, rule_format, OF valid]
  from round same have "handleNodeChildren (editAt 1 1) [listWrapper, eofWrapper]
       [newList, newEof] registry0
       = (case handleSyntaxList (editAt 1 1) (Some listWrapper) newList
                 (getOrCreateWrapper newList registry0) of
            (Some err, s') \<Rightarrow> (Some err, s')
          | (None, s') \<Rightarrow>
              handleNodeChildren (editAt 1 1) (advance [listWrapper, eofWrapper]) [newEof] s')"
    by (simp add: nextValue_def advance_def del: handleNodeChildren.simps)
  moreover from whole env have
    "insertIntoSyntaxList (\<lambda>_. newFile) fileWrapper ''A;'' 2 ''B;'' listWrapper 1 1 registry0
       = handleNode (editAt 1 1) (Some fileWrapper) newFile (getOrCreateWrapper newFile registry0)"
    by simp
  ultimately show ?thesis using stable valid differ by simp
qed

subsection \<open>The splice walk\<close>

lemma handleSyntaxListChildren_pairs:
  "handleSyntaxListChildren env i cursor ns s = handlePairs env cursor (outsideInsertedRange env i ns) s"
  by (induction ns arbitrary: i cursor s)
     (auto simp: inInsertedRange_def split: prod.splits option.splits)

text \<open>
  C3 as the specification states it fails on the small file. \<open>B;\<close> is inserted as one
  item at index 1. The candidate child at index 1, the new statement, lies in the range
  and has no wrapper before the splice walk; it has one as soon as the children of the
  candidate list have been obtained, before the first round, and it still has it when the
  splice walk and the whole edit are through.
\<close>

theorem skipped_child_has_wrapper_counterexample:
  "inInsertedRange (editAt 1 1) 1
   \<and> getChildren newList ! 1 = newStmtB
   \<and> \<not> hasWrapper registry0 newStmtB
   \<and> hasWrapper (wrapChildren (getChildren newList) registry0) newStmtB
   \<and> fst (handleSyntaxList (editAt 1 1) (Some listWrapper) newList registry0) = None
   \<and> hasWrapper (snd (handleSyntaxList (editAt 1 1) (Some listWrapper) newList registry0))
        newStmtB
   \<and> ident newStmtB \<in> made (snd (insertIntoSyntaxList (\<lambda>_. newFile) fileWrapper ''A;'' 2 ''B;''
                                     listWrapper 1 1 registry0))"
  by (simp add: small_file_defs walk_defs hasWrapper_def)

text \<open>
  C3, as the code has it. The splice walk starts by obtaining the children of the
  candidate list, so every candidate child has its wrapper before the first round, the
  children in the range too. Then the rounds, with the index starting at 0, do what the
  walk of section 4.3 does: a candidate child whose index is in
  \<open>[childIndex, childIndex + insertItemsCount)\<close> is passed over, the cursor stays where it
  is and the registry is not touched; every other candidate child is handed to
  \<open>handleNode\<close> together with the next child taken from the cursor; and when the rounds
  are through without an error, \<open>replaceCompilerNode\<close> is called on the list itself with
  the candidate list.
\<close>

theorem splice_walk_pairs_outside_range:
  "handleSyntaxListChildren env 0 cursor candidates s
     = handlePairs env cursor (outsideInsertedRange env 0 candidates) s
   \<and> handleSyntaxList env (Some currentList) candidateList s
     = (case handlePairs env (getChildren currentList)
               (outsideInsertedRange env 0 (getChildren candidateList))
               (wrapChildren (getChildren candidateList) s) of
          (Some err, s') \<Rightarrow> (Some err, s')
        | (None, s') \<Rightarrow> replaceCompilerNode currentList candidateList s')
   \<and> (\<forall>n \<in> set (getChildren candidateList).
         hasWrapper (wrapChildren (getChildren candidateList) s) n)"
  by (simp add: handleSyntaxList_Some handleSyntaxListChildren_pairs wrapChildren_hasWrapper)

theorem splice_walk_pairs_outside_range_witness:
  "newStmtB \<in> set (getChildren newList)
   \<and> hasWrapper (wrapChildren (getChildren newList) registry0) newStmtB
   \<and> outsideInsertedRange (editAt 1 1) 0 (getChildren newList) = [newStmtA]
   \<and> handleSyntaxList (editAt 1 1) (Some listWrapper) newList registry0
     = (case handlePairs (editAt 1 1) (getChildren listWrapper) [newStmtA]
               (wrapChildren (getChildren newList) registry0) of
          (Some err, s') \<Rightarrow> (Some err, s')
        | (None, s') \<Rightarrow> replaceCompilerNode listWrapper newList s')"
proof -
  have child: "newStmtB \<in> set (getChildren newList)"
    by (simp add: newList_def)
  have out: "outsideInsertedRange (editAt 1 1) 0 (getChildren newList) = [newStmtA]"
    by (simp add: newList_def editAt_def)
  note fact = splice_walk_pairs_outside_range [where env = "editAt 1 1"
      and currentList = listWrapper and candidateList = newList and s = registry0]
  from fact child have "hasWrapper (wrapChildren (getChildren newList) registry0) newStmtB"
    by blast
  moreover from fact out have "handleSyntaxList (editAt 1 1) (Some listWrapper) newList registry0
     = (case handlePairs (editAt 1 1) (getChildren listWrapper) [newStmtA]
               (wrapChildren (getChildren newList) registry0) of
          (Some err, s') \<Rightarrow> (Some err, s')
        | (None, s') \<Rightarrow> replaceCompilerNode listWrapper newList s')"
    by simp
  ultimately show ?thesis using child out by simp
qed

subsection \<open>Nothing is forgotten and nothing is rolled back\<close>

lemma forgotten_replaceCompilerNode:
  "forgotten (snd (replaceCompilerNode c n s)) = forgotten s"
  by (simp add: replaceCompilerNode_def)

lemma made_replaceCompilerNode:
  "made (snd (replaceCompilerNode c n s)) = made s"
  by (simp add: replaceCompilerNode_def)

text \<open>\<open>grows s s'\<close>: from \<open>s\<close> to \<open>s'\<close> no wrapper is forgotten and none that was made is lost.\<close>

lemma grows_trans:
  "forgotten s1 = forgotten s \<and> made s \<subseteq> made s1 \<Longrightarrow>
   forgotten s2 = forgotten s1 \<and> made s1 \<subseteq> made s2 \<Longrightarrow>
   forgotten s2 = forgotten s \<and> made s \<subseteq> made s2"
  by auto

lemma grows_getOrCreateWrapper:
  "forgotten (getOrCreateWrapper n s) = forgotten s \<and> made s \<subseteq> made (getOrCreateWrapper n s)"
  by (simp add: made_getOrCreateWrapper)

lemma grows_wrapChildren:
  "forgotten (wrapChildren ns s) = forgotten s \<and> made s \<subseteq> made (wrapChildren ns s)"
  by (simp add: made_wrapChildren)

lemma grows_wrapNext:
  "forgotten (wrapNext it s) = forgotten s \<and> made s \<subseteq> made (wrapNext it s)"
  by (simp add: made_wrapNext)

lemma grows_replaceCompilerNode:
  "forgotten (snd (replaceCompilerNode c n s)) = forgotten s
   \<and> made s \<subseteq> made (snd (replaceCompilerNode c n s))"
  by (simp add: forgotten_replaceCompilerNode made_replaceCompilerNode)

lemma grows_walk:
  "forgotten (snd (handleNode env co n s)) = forgotten s
   \<and> made s \<subseteq> made (snd (handleNode env co n s))"
  "forgotten (snd (handleNodeChildren env it ns s)) = forgotten s
   \<and> made s \<subseteq> made (snd (handleNodeChildren env it ns s))"
  "forgotten (snd (handleSyntaxList env co n s)) = forgotten s
   \<and> made s \<subseteq> made (snd (handleSyntaxList env co n s))"
  "forgotten (snd (handleSyntaxListChildren env i it ns s)) = forgotten s
   \<and> made s \<subseteq> made (snd (handleSyntaxListChildren env i it ns s))"
proof (induction env co n s and env it ns s and env co n s and env i it ns s
       rule: handleNode_handleNodeChildren_handleSyntaxList_handleSyntaxListChildren.induct)
  case (1 env newNode s)
  show ?case by simp
next
  case (2 env currentNode i k p e par newChildren s)
  show ?case
  proof (cases "getKind currentNode = k")
    case False
    then show ?thesis by simp
  next
    case True
    obtain r s1 where r: "handleNodeChildren env (getChildren currentNode) newChildren s = (r, s1)"
      by (cases "handleNodeChildren env (getChildren currentNode) newChildren s")
    with 2 [OF _] True have s1: "forgotten s1 = forgotten s \<and> made s \<subseteq> made s1" by simp
    show ?thesis
    proof (cases r)
      case None
      with r True s1 grows_replaceCompilerNode [of currentNode "Node i k p e par newChildren" s1]
      show ?thesis by auto
    next
      case (Some err)
      with r True s1 show ?thesis by simp
    qed
  qed
next
  case (3 env currentNodeChildren s)
  show ?case by simp
next
  case (4 env currentNodeChildren newNodeChild rest s)
  let ?s0 = "getOrCreateWrapper newNodeChild s"
  let ?first = "if isSyntaxListChild env ?s0 newNodeChild
            then handleSyntaxList env (nextValue currentNodeChildren) newNodeChild ?s0
            else handleNode env (nextValue currentNodeChildren) newNodeChild ?s0"
  obtain r s1 where r: "?first = (r, s1)" by (cases ?first)
  have "forgotten s1 = forgotten ?s0 \<and> made ?s0 \<subseteq> made s1"
    using 4(1,2) r by (cases "isSyntaxListChild env s newNodeChild") simp_all
  with grows_getOrCreateWrapper [of newNodeChild s]
  have s1: "forgotten s1 = forgotten s \<and> made s \<subseteq> made s1"
    by (rule grows_trans)
  show ?case
  proof (cases r)
    case None
    with 4(3) [OF r [symmetric]] have
      "forgotten (snd (handleNodeChildren env (advance currentNodeChildren) rest s1)) = forgotten s1
       \<and> made s1 \<subseteq> made (snd (handleNodeChildren env (advance currentNodeChildren) rest s1))"
      by simp
    with s1 have
      "forgotten (snd (handleNodeChildren env (advance currentNodeChildren) rest s1)) = forgotten s
       \<and> made s \<subseteq> made (snd (handleNodeChildren env (advance currentNodeChildren) rest s1))"
      by (rule grows_trans)
    with r None show ?thesis by simp
  next
    case (Some err)
    with r s1 show ?thesis by simp
  qed
next
  case (5 env newNode s)
  show ?case by simp
next
  case (6 env currentNode i k p e par newChildren s)
  let ?s0 = "wrapChildren newChildren s"
  obtain r s1 where
    r: "handleSyntaxListChildren env 0 (getChildren currentNode) newChildren ?s0 = (r, s1)"
    by (cases "handleSyntaxListChildren env 0 (getChildren currentNode) newChildren ?s0")
  with 6 have "forgotten s1 = forgotten ?s0 \<and> made ?s0 \<subseteq> made s1" by simp
  with grows_wrapChildren [of newChildren s]
  have s1: "forgotten s1 = forgotten s \<and> made s \<subseteq> made s1"
    by (rule grows_trans)
  show ?case
  proof (cases r)
    case None
    with r s1 grows_replaceCompilerNode [of currentNode "Node i k p e par newChildren" s1]
    show ?thesis by auto
  next
    case (Some err)
    with r s1 show ?thesis by simp
  qed
next
  case (7 env i currentNodeChildren s)
  show ?case by simp
next
  case (8 env i currentNodeChildren newNodeChild rest s)
  show ?case
  proof (cases "inInsertedRange env i")
    case True
    with 8(1) show ?thesis by simp
  next
    case False
    obtain r s1 where r: "handleNode env (nextValue currentNodeChildren) newNodeChild s = (r, s1)"
      by (cases "handleNode env (nextValue currentNodeChildren) newNodeChild s")
    with 8(2) [OF False] have s1: "forgotten s1 = forgotten s \<and> made s \<subseteq> made s1" by simp
    show ?thesis
    proof (cases r)
      case None
      with 8(3) [OF False r [symmetric]] have
        "forgotten (snd (handleSyntaxListChildren env (i + 1) (advance currentNodeChildren) rest s1))
           = forgotten s1
         \<and> made s1
             \<subseteq> made (snd (handleSyntaxListChildren env (i + 1) (advance currentNodeChildren) rest s1))"
        by simp
      with s1 have
        "forgotten (snd (handleSyntaxListChildren env (i + 1) (advance currentNodeChildren) rest s1))
           = forgotten s
         \<and> made s
             \<subseteq> made (snd (handleSyntaxListChildren env (i + 1) (advance currentNodeChildren) rest s1))"
        by (rule grows_trans)
      with r None False show ?thesis by simp
    next
      case (Some err)
      with r s1 False show ?thesis by simp
    qed
  qed
qed

lemma forgotten_walk:
  "forgotten (snd (handleNode env co n s)) = forgotten s"
  "forgotten (snd (handleNodeChildren env it ns s)) = forgotten s"
  "forgotten (snd (handleSyntaxList env co n s)) = forgotten s"
  "forgotten (snd (handleSyntaxListChildren env i it ns s)) = forgotten s"
  by (simp_all add: grows_walk)

lemma grows_straight:
  "forgotten (snd (straightHandleNode co no s)) = forgotten s
   \<and> made s \<subseteq> made (snd (straightHandleNode co no s))"
  "forgotten (snd (straightChildren cs it s)) = forgotten s
   \<and> made s \<subseteq> made (snd (straightChildren cs it s))"
proof (induction co no s and cs it s rule: straightHandleNode_straightChildren.induct)
  case (3 i k p e par currentChildren newNode s)
  show ?case
  proof (cases "k = getKind newNode")
    case False
    then show ?thesis by simp
  next
    case True
    obtain r s1 where r: "straightChildren currentChildren (getChildren newNode) s = (r, s1)"
      by (cases "straightChildren currentChildren (getChildren newNode) s")
    with 3 True have s1: "forgotten s1 = forgotten s \<and> made s \<subseteq> made s1" by simp
    show ?thesis
    proof (cases r)
      case None
      with r True s1 grows_replaceCompilerNode [of "Node i k p e par currentChildren" newNode s1]
      show ?thesis by auto
    next
      case (Some err)
      with r True s1 show ?thesis by simp
    qed
  qed
next
  case (4 newNodeChildren s)
  show ?case using grows_wrapNext [of newNodeChildren s] by simp
next
  case (5 currentNodeChild rest newNodeChildren s)
  let ?s0 = "wrapNext newNodeChildren s"
  obtain r s1 where
    r: "straightHandleNode (Some currentNodeChild) (nextValue newNodeChildren) ?s0 = (r, s1)"
    by (cases "straightHandleNode (Some currentNodeChild) (nextValue newNodeChildren) ?s0")
  with 5(1) have "forgotten s1 = forgotten ?s0 \<and> made ?s0 \<subseteq> made s1" by simp
  with grows_wrapNext [of newNodeChildren s]
  have s1: "forgotten s1 = forgotten s \<and> made s \<subseteq> made s1"
    by (rule grows_trans)
  show ?case
  proof (cases r)
    case None
    with 5(2) [OF r [symmetric]] have
      "forgotten (snd (straightChildren rest (advance newNodeChildren) s1)) = forgotten s1
       \<and> made s1 \<subseteq> made (snd (straightChildren rest (advance newNodeChildren) s1))"
      by simp
    with s1 have
      "forgotten (snd (straightChildren rest (advance newNodeChildren) s1)) = forgotten s
       \<and> made s \<subseteq> made (snd (straightChildren rest (advance newNodeChildren) s1))"
      by (rule grows_trans)
    with r None show ?thesis by simp
  next
    case (Some err)
    with r s1 show ?thesis by simp
  qed
qed simp_all

lemma grows_run:
  "forgotten (snd (run env a s)) = forgotten s \<and> made s \<subseteq> made (snd (run env a s))"
  by (cases a) (simp_all add: grows_walk grows_straight)

lemma forgotten_run: "forgotten (snd (run env a s)) = forgotten s"
  by (simp add: grows_run)

text \<open>
  From caller to callee no wrapper is forgotten, and what the callee leaves behind stays
  to the end of the caller.
\<close>

lemma invokes_grows:
  assumes "invokes env (a, s) (b, s')"
  shows "forgotten s' = forgotten s \<and> made (snd (run env b s')) \<subseteq> made (snd (run env a s))"
  using assms
proof (induction "(a, s)" "(b, s')" rule: invokes.induct)
  case (node_children c n)
  obtain r s1 where r: "handleNodeChildren env (getChildren c) (getChildren n) s = (r, s1)"
    by (cases "handleNodeChildren env (getChildren c) (getChildren n) s")
  with node_children show ?case
    by (cases r) (auto simp: handleNode_Some made_replaceCompilerNode)
next
  case (child_list nc it rest)
  let ?s0 = "getOrCreateWrapper nc s"
  obtain r s1 where r: "handleSyntaxList env (nextValue it) nc ?s0 = (r, s1)"
    by (cases "handleSyntaxList env (nextValue it) nc ?s0")
  with child_list grows_walk(2) [of env "advance it" rest s1] show ?case
    by (cases r) auto
next
  case (child_node nc it rest)
  let ?s0 = "getOrCreateWrapper nc s"
  obtain r s1 where r: "handleNode env (nextValue it) nc ?s0 = (r, s1)"
    by (cases "handleNode env (nextValue it) nc ?s0")
  with child_node grows_walk(2) [of env "advance it" rest s1] show ?case
    by (cases r) auto
next
  case (child_list_next nc it rest)
  then show ?case
    using forgotten_walk(3) [of env "nextValue it" nc "getOrCreateWrapper nc s"] by auto
next
  case (child_node_next nc it rest)
  then show ?case
    using forgotten_walk(1) [of env "nextValue it" nc "getOrCreateWrapper nc s"] by auto
next
  case (list_children c n)
  let ?s0 = "wrapChildren (getChildren n) s"
  obtain r s1 where r: "handleSyntaxListChildren env 0 (getChildren c) (getChildren n) ?s0 = (r, s1)"
    by (cases "handleSyntaxListChildren env 0 (getChildren c) (getChildren n) ?s0")
  with list_children show ?case
    by (cases r) (auto simp: handleSyntaxList_Some made_replaceCompilerNode)
next
  case (item_skipped i it nc rest)
  then show ?case by auto
next
  case (item_node i it nc rest)
  obtain r s1 where r: "handleNode env (nextValue it) nc s = (r, s1)"
    by (cases "handleNode env (nextValue it) nc s")
  with item_node grows_walk(4) [of env "i + 1" "advance it" rest s1] show ?case
    by (cases r) auto
next
  case (item_next i it nc rest)
  then show ?case using forgotten_walk(1) [of env "nextValue it" nc s] by auto
next
  case (straight_children c n)
  obtain r s1 where r: "straightChildren (getChildren c) (getChildren n) s = (r, s1)"
    by (cases "straightChildren (getChildren c) (getChildren n) s")
  with straight_children show ?case
    by (cases r) (auto simp: straightHandleNode_Some made_replaceCompilerNode)
next
  case (straight_child cc rest it)
  let ?s0 = "wrapNext it s"
  obtain r s1 where r: "straightHandleNode (Some cc) (nextValue it) ?s0 = (r, s1)"
    by (cases "straightHandleNode (Some cc) (nextValue it) ?s0")
  with straight_child grows_straight(2) [of rest "advance it" s1] show ?case
    by (cases r) auto
next
  case (straight_next cc it rest)
  then show ?case
    using grows_straight(1) [of "Some cc" "nextValue it" "wrapNext it s"] by auto
qed

lemma forgotten_invokes:
  assumes "invokes env (a, s) (b, s')"
  shows "forgotten s' = forgotten s"
  using invokes_grows [OF assms] by simp

lemma reaches_grows:
  assumes "(invokes env)\<^sup>*\<^sup>* (a, s) (b, s')"
  shows "forgotten s' = forgotten s \<and> made (snd (run env b s')) \<subseteq> made (snd (run env a s))"
  using assms
proof (induction "(a, s)" arbitrary: a s rule: converse_rtranclp_induct)
  case base
  then show ?case by simp
next
  case (step z)
  obtain c t where z: "z = (c, t)" by (cases z)
  with step(1) have "forgotten t = forgotten s
      \<and> made (snd (run env c t)) \<subseteq> made (snd (run env a s))"
    by (simp add: invokes_grows)
  with step(3) [OF z] show ?case by auto
qed

lemma forgotten_reaches:
  assumes "(invokes env)\<^sup>*\<^sup>* (a, s) (b, s')"
  shows "forgotten s' = forgotten s"
  using reaches_grows [OF assms] by simp

text \<open>
  C4, as the code has it. The edit is not atomic. When a call that the walk reaches fails,
  the edit fails with that very error and with the registry that call left behind: the
  replacements made before the failure stay, no other wrapper is touched, and no wrapper
  is forgotten, neither on failure nor on success.
\<close>

theorem failed_edit_is_not_rolled_back:
  assumes "(invokes env)\<^sup>*\<^sup>* (a, s) (b, s')" and "run env b s' = (Some e, s'')"
  shows "run env a s = (Some e, s'') \<and> forgotten s'' = forgotten s
       \<and> forgotten (snd (insertIntoSyntaxList parse sf t p added sl ci cnt s)) = forgotten s"
proof -
  have "run env a s = (Some e, s'')"
    using assms by (rule reaches_error)
  moreover have "forgotten s'' = forgotten s"
    using forgotten_run [of env b s'] forgotten_reaches [OF assms(1)] assms(2) by simp
  moreover have "forgotten (snd (insertIntoSyntaxList parse sf t p added sl ci cnt s)) = forgotten s"
    by (simp add: insertIntoSyntaxList_def Let_def forgotten_walk)
  ultimately show ?thesis by simp
qed

theorem failed_edit_is_not_rolled_back_witness:
  "(invokes (editAB 2 0))\<^sup>*\<^sup>* (HandleNode (Some newFile) callFile, registryAB)
       (HandleNode (Some newIdentB) callExpr,
        getOrCreateWrapper callExpr
          (snd (handleNode (editAB 2 0) (Some newStmtA) callStmtA
                  (wrapChildren [callStmtA, callStmtB] (getOrCreateWrapper callList registryAB)))))
   \<and> handleNode (editAB 2 0) (Some newFile) callFile registryAB
       = (Some (InvalidOperationError newIdentB callExpr),
          getOrCreateWrapper callExpr
            (snd (handleNode (editAB 2 0) (Some newStmtA) callStmtA
                    (wrapChildren [callStmtA, callStmtB] (getOrCreateWrapper callList registryAB)))))
   \<and> compilerNodeOf
         (snd (handleNode (editAB 2 0) (Some newStmtA) callStmtA
                 (wrapChildren [callStmtA, callStmtB] (getOrCreateWrapper callList registryAB)))) 203
       = Some callStmtA
   \<and> forgotten
         (snd (handleNode (editAB 2 0) (Some newStmtA) callStmtA
                 (wrapChildren [callStmtA, callStmtB] (getOrCreateWrapper callList registryAB))))
       = {}"
proof -
  let ?env = "editAB 2 0"
  let ?sA = "getOrCreateWrapper callList registryAB"
  let ?sB = "wrapChildren [callStmtA, callStmtB] ?sA"
  let ?sC = "snd (handleNode ?env (Some newStmtA) callStmtA ?sB)"
  let ?sD = "getOrCreateWrapper callExpr ?sC"
  have first_done: "handleNode ?env (Some newStmtA) callStmtA ?sB = (None, ?sC)"
    by (rule prod_eqI) (simp_all add: second_file_defs walk_defs)
  have 1: "invokes ?env (HandleNode (Some newFile) callFile, registryAB)
             (HandleNodeChildren [newList, newEof] [callList, callEof], registryAB)"
    using node_children [where c = newFile and n = callFile and env = ?env and s = registryAB]
    by (simp add: newFile_def callFile_def)
  have "isSyntaxListChild ?env registryAB callList"
    by (simp add: second_file_defs walk_defs)
  then have 2: "invokes ?env (HandleNodeChildren [newList, newEof] [callList, callEof], registryAB)
             (HandleSyntaxList (Some newList) callList, ?sA)"
    using child_list [where env = ?env and nc = callList and it = "[newList, newEof]"
        and rest = "[callEof]" and s = registryAB]
    by (simp add: nextValue_def)
  have 3: "invokes ?env (HandleSyntaxList (Some newList) callList, ?sA)
             (HandleSyntaxListChildren 0 [newStmtA, newStmtB] [callStmtA, callStmtB], ?sB)"
    using list_children [where env = ?env and c = newList and n = callList and s = ?sA]
    by (simp add: newList_def callList_def)
  have 4: "invokes ?env
             (HandleSyntaxListChildren 0 [newStmtA, newStmtB] [callStmtA, callStmtB], ?sB)
             (HandleSyntaxListChildren 1 [newStmtB] [callStmtB], ?sC)"
    using item_next [where env = ?env and i = 0 and it = "[newStmtA, newStmtB]"
        and nc = callStmtA and rest = "[callStmtB]" and s = ?sB and s' = ?sC] first_done
    by (simp add: inInsertedRange_def editAB_def nextValue_def advance_def)
  have 5: "invokes ?env (HandleSyntaxListChildren 1 [newStmtB] [callStmtB], ?sC)
             (HandleNode (Some newStmtB) callStmtB, ?sC)"
    using item_node [where env = ?env and i = 1 and it = "[newStmtB]" and nc = callStmtB
        and rest = "[]" and s = ?sC]
    by (simp add: inInsertedRange_def editAB_def nextValue_def)
  have 6: "invokes ?env (HandleNode (Some newStmtB) callStmtB, ?sC)
             (HandleNodeChildren [newIdentB, newSemiB] [callExpr, callSemi], ?sC)"
    using node_children [where c = newStmtB and n = callStmtB and env = ?env and s = ?sC]
    by (simp add: newStmtB_def callStmtB_def)
  have 7: "invokes ?env (HandleNodeChildren [newIdentB, newSemiB] [callExpr, callSemi], ?sC)
             (HandleNode (Some newIdentB) callExpr, ?sD)"
  proof -
    have "\<not> isSyntaxListChild ?env ?sC callExpr"
      by (simp add: second_file_defs walk_defs)
    then show ?thesis
      using child_node [where env = ?env and nc = callExpr and it = "[newIdentB, newSemiB]"
          and rest = "[callSemi]" and s = ?sC]
      by (simp add: nextValue_def)
  qed
  have reach: "(invokes ?env)\<^sup>*\<^sup>* (HandleNode (Some newFile) callFile, registryAB)
       (HandleNode (Some newIdentB) callExpr, ?sD)"
    using 1 2 3 4 5 6 7 by (meson rtranclp.rtrancl_into_rtrancl rtranclp.rtrancl_refl)
  have fails: "run ?env (HandleNode (Some newIdentB) callExpr) ?sD
                 = (Some (InvalidOperationError newIdentB callExpr), ?sD)"
    by (simp add: handleNode_Some newIdentB_def callExpr_def)
  have upd: "compilerNodeOf ?sC 203 = Some callStmtA"
    by (simp add: second_file_defs walk_defs)
  have "forgotten registryAB = {}"
    by (simp add: registryAB_def)
  with failed_edit_is_not_rolled_back [OF reach fails] reach upd show ?thesis by simp
qed

text \<open>
  C4 as the specification states it fails on the second file. \<open>()\<close> is inserted after
  \<open>B\<close> with no item declared; the reparsed second statement holds a call where the
  wrapped one holds an identifier. The edit fails with the structural error, and the
  caller sees the wrapper of the first statement on its new node, the wrappers of the
  second statement, of the list and of the file still on their old nodes, and no wrapper
  forgotten.
\<close>

theorem failed_edit_partial_state_counterexample:
  "fst (insertIntoSyntaxList (\<lambda>_. callFile) newFile ''A;B;'' 3 ''()'' newList 2 0 registryAB)
     = Some (InvalidOperationError newIdentB callExpr)
   \<and> compilerNodeOf (snd (insertIntoSyntaxList (\<lambda>_. callFile) newFile ''A;B;'' 3 ''()''
                             newList 2 0 registryAB)) 203 = Some callStmtA
   \<and> compilerNodeOf (snd (insertIntoSyntaxList (\<lambda>_. callFile) newFile ''A;B;'' 3 ''()''
                             newList 2 0 registryAB)) 207 = Some (renumber (\<lambda>i. i + 300) newStmtB)
   \<and> compilerNodeOf (snd (insertIntoSyntaxList (\<lambda>_. callFile) newFile ''A;B;'' 3 ''()''
                             newList 2 0 registryAB)) 201 = Some (renumber (\<lambda>i. i + 300) newFile)
   \<and> forgotten (snd (insertIntoSyntaxList (\<lambda>_. callFile) newFile ''A;B;'' 3 ''()''
                        newList 2 0 registryAB)) = {}"
  by (simp add: second_file_defs walk_defs)

subsection \<open>Children left over\<close>

text \<open>
  C5 at the input that breaks it. \<open>B\<close> is inserted at position 0 of \<open>A;\<close> as one new item
  at index 0; the parser finds one statement, \<open>BA;\<close>. The splice walk passes over that
  statement, never takes the old statement from the cursor, and ends with the list
  replaced and no error: the wrapper of the old statement stays on its old node.
\<close>

theorem splice_leftover_accepted:
  "fst (insertIntoSyntaxList (\<lambda>_. mergedFile) fileWrapper ''A;'' 0 ''B'' listWrapper 0 1 registry0)
     = None
   \<and> outsideInsertedRange (editAt 0 1) 0 (getChildren mergedList) = []
   \<and> getChildren listWrapper = [stmtWrapper]
   \<and> fst (handleSyntaxList (editAt 0 1) (Some listWrapper) mergedList registry0) = None
   \<and> compilerNodeOf (snd (handleSyntaxList (editAt 0 1) (Some listWrapper) mergedList registry0)) 2
       = Some mergedList
   \<and> compilerNodeOf (snd (handleSyntaxList (editAt 0 1) (Some listWrapper) mergedList registry0)) 3
       = Some oldStmt"
  by (simp add: small_file_defs walk_defs)

text \<open>
  C6 at the input that breaks it. \<open>//\<close> is inserted before the semicolon of \<open>A;\<close>; the
  new statement has one child where the current one has two. \<open>handleNode\<close> pairs the
  identifiers, never looks at the semicolon left in the iterator, and ends with the
  statement replaced and no error.
\<close>

theorem current_children_left_over_accepted:
  "fst (insertIntoSyntaxList (\<lambda>_. bareFile) fileWrapper ''A;'' 1 ''//'' listWrapper 1 0 registry0)
     = None
   \<and> length (getChildren stmtWrapper) = 2 \<and> length (getChildren bareStmt) = 1
   \<and> fst (handleNode (editAt 1 0) (Some stmtWrapper) bareStmt registry0) = None
   \<and> compilerNodeOf (snd (handleNode (editAt 1 0) (Some stmtWrapper) bareStmt registry0)) 3
       = Some bareStmt
   \<and> compilerNodeOf (snd (handleNode (editAt 1 0) (Some stmtWrapper) bareStmt registry0)) 5
       = Some oldSemi"
  by (simp add: small_file_defs walk_defs)

text \<open>
  The other direction does fail, in \<open>handleNode\<close> by the call on \<open>undefined\<close>, and the
  straight replacement handler fails in both directions.
\<close>

lemma straightChildren_length:
  "length cs \<noteq> length ns \<Longrightarrow> fst (straightChildren cs ns s) \<noteq> None"
proof (induction cs arbitrary: ns s)
  case Nil
  then show ?case by simp
next
  case (Cons c cs)
  show ?case
  proof (cases ns)
    case Nil
    then show ?thesis by (cases c) (simp add: nextValue_def)
  next
    case (Cons n ns')
    with Cons.prems have "length cs \<noteq> length ns'" by simp
    from Cons.IH [OF this] Cons show ?thesis
      by (auto simp: nextValue_def advance_def split: prod.splits option.splits)
  qed
qed

lemma handleNodeChildren_more_new:
  "length it < length ns \<Longrightarrow> fst (handleNodeChildren env it ns s) \<noteq> None"
proof (induction ns arbitrary: it s)
  case Nil
  then show ?case by simp
next
  case (Cons n ns)
  show ?case
  proof (cases it)
    case Nil
    then show ?thesis by (simp add: nextValue_def)
  next
    case (Cons c cs)
    with Cons.prems have "length cs < length ns" by simp
    from Cons.IH [OF this] Cons show ?thesis
      by (auto simp: nextValue_def advance_def split: prod.splits option.splits)
  qed
qed

subsection \<open>The replacements of an aligned walk\<close>

lemma replaceAll_append: "replaceAll (ps @ qs) s = replaceAll qs (replaceAll ps s)"
  by (induction ps arbitrary: s) auto

lemma nodesOf_unfold: "nodesOf c = c # nodesOfList (getChildren c)"
  by (cases c) simp

lemma partners_kinds:
  "aligned env c n \<Longrightarrow> (a, b) \<in> set (partners env c n) \<Longrightarrow> getKind a = getKind b"
  "alignedChildren env cs ns \<Longrightarrow> (a, b) \<in> set (partnersChildren env cs ns) \<Longrightarrow> getKind a = getKind b"
  "alignedList env c n \<Longrightarrow> (a, b) \<in> set (partnersList env c n) \<Longrightarrow> getKind a = getKind b"
  "alignedItems env i cs ns \<Longrightarrow> (a, b) \<in> set (partnersItems env i cs ns) \<Longrightarrow> getKind a = getKind b"
proof (induction env c n and env cs ns and env c n and env i cs ns
       rule: aligned_alignedChildren_alignedList_alignedItems.induct)
  case (1 env c i k p e par ns)
  then show ?case by auto
next
  case (5 env c cs n ns)
  then show ?case by (auto split: if_splits)
next
  case (6 env c i k p e par ns)
  then show ?case by auto
next
  case (9 env i n ns)
  then show ?case by (auto split: if_splits)
next
  case (10 env i c cs n ns)
  then show ?case by (auto split: if_splits)
qed simp_all

lemma partners_mset:
  "aligned env c n \<Longrightarrow>
     mset (map fst (partners env c n)) = mset (nodesOf c)
     \<and> mset (map snd (partners env c n)) + mset (inserted env c n) = mset (nodesOf n)"
  "alignedChildren env cs ns \<Longrightarrow>
     mset (map fst (partnersChildren env cs ns)) = mset (nodesOfList cs)
     \<and> mset (map snd (partnersChildren env cs ns)) + mset (insertedChildren env cs ns)
         = mset (nodesOfList ns)"
  "alignedList env c n \<Longrightarrow>
     mset (map fst (partnersList env c n)) = mset (nodesOf c)
     \<and> mset (map snd (partnersList env c n)) + mset (insertedList env c n) = mset (nodesOf n)"
  "alignedItems env i cs ns \<Longrightarrow>
     mset (map fst (partnersItems env i cs ns)) = mset (nodesOfList cs)
     \<and> mset (map snd (partnersItems env i cs ns)) + mset (insertedItems env i cs ns)
         = mset (nodesOfList ns)"
proof (induction env c n and env cs ns and env c n and env i cs ns
       rule: aligned_alignedChildren_alignedList_alignedItems.induct)
  case (1 env c i k p e par ns)
  then show ?case by (simp add: nodesOf_unfold [of c])
next
  case (5 env c cs n ns)
  then show ?case by (cases "matchesList env n") (simp_all add: ac_simps)
next
  case (6 env c i k p e par ns)
  then show ?case by (simp add: nodesOf_unfold [of c])
next
  case (9 env i n ns)
  then show ?case by (cases "inInsertedRange env i") (auto simp: ac_simps)
next
  case (10 env i c cs n ns)
  then show ?case by (cases "inInsertedRange env i") (simp_all add: ac_simps)
qed simp_all

lemma forgotten_replaceAll: "forgotten (replaceAll ps s) = forgotten s"
  by (induction ps arbitrary: s) (auto simp: forgotten_replaceCompilerNode)

lemma compilerNodeOf_replace_other:
  "w \<noteq> ident c \<Longrightarrow>
   compilerNodeOf (snd (replaceCompilerNode c n s)) w = compilerNodeOf s w"
  by (simp add: replaceCompilerNode_def)

lemma compilerNodeOf_replaceAll_other:
  "w \<notin> set (map (ident \<circ> fst) ps) \<Longrightarrow> compilerNodeOf (replaceAll ps s) w = compilerNodeOf s w"
  by (induction ps arbitrary: s) (auto simp: compilerNodeOf_replace_other)

lemma compilerNodeOf_replaceAll:
  assumes "(c, n) \<in> set ps" and "distinct (map (ident \<circ> fst) ps)"
    and "\<forall>(a, b) \<in> set ps. getKind a = getKind b"
  shows "compilerNodeOf (replaceAll ps s) (ident c) = Some n"
  using assms
proof (induction ps arbitrary: s)
  case Nil
  then show ?case by simp
next
  case (Cons q ps)
  obtain a b where q: "q = (a, b)" by (cases q)
  show ?case
  proof (cases "(c, n) \<in> set ps")
    case True
    with Cons q show ?thesis by simp
  next
    case False
    with Cons.prems q have eq: "a = c" "b = n" and kinds: "getKind c = getKind n"
      and out: "ident c \<notin> set (map (ident \<circ> fst) ps)"
      by auto
    have "compilerNodeOf (replaceAll ps (snd (replaceCompilerNode c n s))) (ident c)
            = compilerNodeOf (snd (replaceCompilerNode c n s)) (ident c)"
      using out by (rule compilerNodeOf_replaceAll_other)
    with kinds q eq show ?thesis by (simp add: replaceCompilerNode_def)
  qed
qed

lemma nodeCache_replace_other:
  assumes "u \<noteq> ident n"
    and "\<forall>old. compilerNodeOf s (ident c) = Some old \<longrightarrow> u \<notin> set (identsOf old)"
  shows "nodeCache (snd (replaceCompilerNode c n s)) u = nodeCache s u"
  using assms by (auto simp: replaceCompilerNode_def dropOld_def split: option.splits)

lemma nodeCache_replaceAll_other:
  assumes "u \<notin> set (map (ident \<circ> snd) ps)" and "distinct (map (ident \<circ> fst) ps)"
    and "\<forall>(a, b) \<in> set ps. \<forall>old. compilerNodeOf s (ident a) = Some old \<longrightarrow> u \<notin> set (identsOf old)"
  shows "nodeCache (replaceAll ps s) u = nodeCache s u"
  using assms
proof (induction ps arbitrary: s)
  case Nil
  then show ?case by simp
next
  case (Cons q ps)
  obtain a b where q: "q = (a, b)" by (cases q)
  let ?s1 = "snd (replaceCompilerNode a b s)"
  have first: "nodeCache ?s1 u = nodeCache s u"
    using Cons.prems q by (intro nodeCache_replace_other) auto
  have "\<forall>(a', b') \<in> set ps. \<forall>old. compilerNodeOf ?s1 (ident a') = Some old \<longrightarrow> u \<notin> set (identsOf old)"
  proof (clarify)
    fix a' b' old
    assume in_ps: "(a', b') \<in> set ps" and old: "compilerNodeOf ?s1 (ident a') = Some old"
      and u: "u \<in> set (identsOf old)"
    from in_ps Cons.prems(2) q have "ident a' \<noteq> ident a" by force
    with old have "compilerNodeOf s (ident a') = Some old"
      by (simp add: compilerNodeOf_replace_other)
    with in_ps Cons.prems(3) u show False by auto
  qed
  with Cons.IH [of ?s1] Cons.prems have "nodeCache (replaceAll ps ?s1) u = nodeCache ?s1 u"
    by simp
  with first q show ?case by simp
qed

lemma nodeCache_replaceAll:
  assumes "(c, n) \<in> set ps" and "distinct (map (ident \<circ> fst) ps)"
    and "distinct (map (ident \<circ> snd) ps)"
    and "\<forall>(a, b) \<in> set ps. getKind a = getKind b"
    and "\<forall>(a, b) \<in> set ps. \<forall>old. compilerNodeOf s (ident a) = Some old \<longrightarrow>
           set (identsOf old) \<inter> set (map (ident \<circ> snd) ps) = {}"
  shows "nodeCache (replaceAll ps s) (ident n) = Some (ident c)"
  using assms
proof (induction ps arbitrary: s)
  case Nil
  then show ?case by simp
next
  case (Cons q ps)
  obtain a b where q: "q = (a, b)" by (cases q)
  let ?s1 = "snd (replaceCompilerNode a b s)"
  have held: "\<forall>(a', b') \<in> set ps. compilerNodeOf ?s1 (ident a') = compilerNodeOf s (ident a')"
  proof (clarify)
    fix a' b'
    assume "(a', b') \<in> set ps"
    with Cons.prems(2) q have "ident a' \<noteq> ident a" by force
    then show "compilerNodeOf ?s1 (ident a') = compilerNodeOf s (ident a')"
      by (simp add: compilerNodeOf_replace_other)
  qed
  show ?case
  proof (cases "(c, n) \<in> set ps")
    case True
    have "\<forall>(a', b') \<in> set ps. \<forall>old. compilerNodeOf ?s1 (ident a') = Some old \<longrightarrow>
           set (identsOf old) \<inter> set (map (ident \<circ> snd) ps) = {}"
      using held Cons.prems(5) by fastforce
    with Cons.IH [of ?s1] True Cons.prems q show ?thesis by simp
  next
    case False
    with Cons.prems q have eq: "a = c" "b = n" and kinds: "getKind c = getKind n"
      and out: "ident n \<notin> set (map (ident \<circ> snd) ps)"
      by auto
    have "\<forall>(a', b') \<in> set ps. \<forall>old. compilerNodeOf ?s1 (ident a') = Some old \<longrightarrow>
           ident n \<notin> set (identsOf old)"
      using held Cons.prems(5) eq q by fastforce
    moreover have "distinct (map (ident \<circ> fst) ps)"
      using Cons.prems(2) by (simp add: comp_def)
    ultimately have "nodeCache (replaceAll ps ?s1) (ident n) = nodeCache ?s1 (ident n)"
      using out by (intro nodeCache_replaceAll_other)
    with kinds q eq show ?thesis by (simp add: replaceCompilerNode_def)
  qed
qed

subsection \<open>The calls of an aligned walk\<close>

lemma aligned_unfold:
  "aligned env c n = (getKind c = getKind n \<and> alignedChildren env (getChildren c) (getChildren n))"
  by (cases n) auto

lemma alignedList_unfold:
  "alignedList env c n = (getKind c = getKind n \<and> alignedItems env 0 (getChildren c) (getChildren n))"
  by (cases n) auto

lemma partners_unfold:
  "partners env c n = partnersChildren env (getChildren c) (getChildren n) @ [(c, n)]"
  by (cases n) auto

lemma partnersList_unfold:
  "partnersList env c n = partnersItems env 0 (getChildren c) (getChildren n) @ [(c, n)]"
  by (cases n) auto

lemma inserted_unfold:
  "inserted env c n = insertedChildren env (getChildren c) (getChildren n)"
  by (cases n) auto

lemma insertedList_unfold:
  "insertedList env c n = insertedItems env 0 (getChildren c) (getChildren n)"
  by (cases n) auto

lemma currentRef_replace:
  "currentRef (snd (replaceCompilerNode c n s)) r =
     (if getKind c = getKind n \<and> refIdent r = ident c
      then NodeRef (refIdent r) (getPos n) (getKind n) else currentRef s r)"
  by (simp add: replaceCompilerNode_def currentRef_def)

lemma keyStable_replace:
  assumes "keyStable env s" and "keepsKey env (c, n)"
  shows "keyStable env (snd (replaceCompilerNode c n s))"
  using assms
  by (auto simp: keyStable_def keepsKey_def currentRef_replace sameKey_def refOf_def
      split: option.splits if_splits)

lemma keyStable_replaceAll:
  "keyStable env s \<Longrightarrow> list_all (keepsKey env) ps \<Longrightarrow> keyStable env (replaceAll ps s)"
proof (induction ps arbitrary: s)
  case Nil
  then show ?case by simp
next
  case (Cons q ps)
  obtain c n where q: "q = (c, n)" by (cases q)
  with Cons.prems have "keyStable env (snd (replaceCompilerNode c n s))"
    by (simp add: keyStable_replace)
  with Cons.IH [of "snd (replaceCompilerNode c n s)"] Cons.prems(2) q show ?case by simp
qed

lemma core_fields [simp]:
  "compilerNodeOf (core s) = compilerNodeOf s"
  "nodeCache (core s) = nodeCache s"
  "forgotten (core s) = forgotten s"
  "made (core s) = {}"
  by (simp_all add: core_def)

lemma core_core [simp]: "core (core s) = core s"
  by (simp add: core_def)

lemma core_wrapped [simp]:
  "core (getOrCreateWrapper n s) = core s"
  "core (wrapChildren ns s) = core s"
proof -
  show 1: "core (getOrCreateWrapper n s) = core s" for n s
    by (simp add: core_def getOrCreateWrapper_def)
  show "core (wrapChildren ns s) = core s"
    by (induction ns arbitrary: s) (simp_all add: 1)
qed

lemma core_replaceCompilerNode:
  "core (snd (replaceCompilerNode c n s)) = snd (replaceCompilerNode c n (core s))"
  by (simp add: replaceCompilerNode_def core_def)

lemma core_replaceAll: "core (replaceAll ps s) = replaceAll ps (core s)"
proof (induction ps arbitrary: s)
  case Nil
  show ?case by simp
next
  case (Cons q ps)
  obtain c n where q: "q = (c, n)" by (cases q)
  with Cons [of "snd (replaceCompilerNode c n s)"] show ?case
    by (simp add: core_replaceCompilerNode)
qed

lemma keyStable_core: "core s = core t \<Longrightarrow> keyStable env s = keyStable env t"
proof -
  assume "core s = core t"
  then have "compilerNodeOf (core s) = compilerNodeOf (core t)" by simp
  then have "compilerNodeOf s = compilerNodeOf t" by simp
  then have "currentRef s = currentRef t" by (intro ext) (simp add: currentRef_def)
  then show ?thesis by (simp add: keyStable_def split: option.splits)
qed

lemma keyStable_wrapped [simp]:
  "keyStable env (getOrCreateWrapper n s) = keyStable env s"
  "keyStable env (wrapChildren ns s) = keyStable env s"
  by (rule keyStable_core, simp)+

lemma case_None:
  "fst out = None \<Longrightarrow>
     (case out of (Some err, s') \<Rightarrow> f err s' | (None, s') \<Rightarrow> g s') = g (snd out)"
  by (cases out) auto

lemma replaces_seq:
  assumes "replaces out1 ps s" and "replaces out2 qs (snd out1)"
  shows "replaces out2 (ps @ qs) s"
  using assms by (simp add: replaces_def replaceAll_append)

lemma replaces_wrapped [simp]:
  "replaces out ps (getOrCreateWrapper n s) = replaces out ps s"
  "replaces out ps (wrapChildren ns s) = replaces out ps s"
  by (simp_all add: replaces_def)

lemma replaces_replace:
  assumes "replaces out ps s" and "getKind c = getKind n"
  shows "replaces (replaceCompilerNode c n (snd out)) (ps @ [(c, n)]) s"
proof -
  from assms(2) have "fst (replaceCompilerNode c n (snd out)) = None"
    by (simp add: replaceCompilerNode_def)
  moreover have "core (snd (replaceCompilerNode c n (snd out)))
                   = replaceAll (ps @ [(c, n)]) (core s)"
    using assms(1) by (simp add: core_replaceCompilerNode replaces_def replaceAll_append)
  ultimately show ?thesis by (simp add: replaces_def)
qed

lemma replaces_stable:
  assumes "replaces out ps s" and "keyStable env s" and "list_all (keepsKey env) ps"
  shows "keyStable env (snd out)"
proof -
  from assms(2) have "keyStable env (core s)"
    using keyStable_core [of "core s" s env] by simp
  then have "keyStable env (replaceAll ps (core s))"
    using assms(3) by (rule keyStable_replaceAll)
  moreover from assms(1) have "core (snd out) = core (replaceAll ps (core s))"
    by (simp add: replaces_def core_replaceAll)
  ultimately show ?thesis using keyStable_core by blast
qed

text \<open>
  On aligned trees, with the list and its parent keeping their key, the walk makes the
  replacements of the partners and, wrappers of new nodes apart, nothing else.
\<close>

lemma walk_aligned:
  "aligned env c n \<Longrightarrow> list_all (keepsKey env) (partners env c n) \<Longrightarrow> keyStable env s \<Longrightarrow>
     replaces (handleNode env (Some c) n s) (partners env c n) s"
  "alignedChildren env cs ns \<Longrightarrow> list_all (keepsKey env) (partnersChildren env cs ns) \<Longrightarrow>
     keyStable env s \<Longrightarrow>
     replaces (handleNodeChildren env cs ns s) (partnersChildren env cs ns) s"
  "alignedList env c n \<Longrightarrow> list_all (keepsKey env) (partnersList env c n) \<Longrightarrow> keyStable env s \<Longrightarrow>
     replaces (handleSyntaxList env (Some c) n s) (partnersList env c n) s"
  "alignedItems env i cs ns \<Longrightarrow> list_all (keepsKey env) (partnersItems env i cs ns) \<Longrightarrow>
     keyStable env s \<Longrightarrow>
     replaces (handleSyntaxListChildren env i cs ns s) (partnersItems env i cs ns) s"
proof (induction env c n and env cs ns and env c n and env i cs ns arbitrary: s and s and s and s
       rule: aligned_alignedChildren_alignedList_alignedItems.induct)
  case (1 env c i k p e par ns)
  let ?n = "Node i k p e par ns"
  let ?out = "handleNodeChildren env (getChildren c) ns s"
  from "1.prems" have kinds: "getKind c = getKind ?n" and shape: "alignedChildren env (getChildren c) ns"
    and keeps: "list_all (keepsKey env) (partnersChildren env (getChildren c) ns)"
    by simp_all
  from "1.IH" [OF shape keeps "1.prems"(3)]
  have out: "replaces ?out (partnersChildren env (getChildren c) ns) s" .
  then have "fst ?out = None" by (simp add: replaces_def)
  then have "handleNode env (Some c) ?n s = replaceCompilerNode c ?n (snd ?out)"
    using kinds by (simp add: case_None)
  with replaces_replace [OF out kinds] show ?case by simp
next
  case (2 env)
  show ?case by (simp add: replaces_def)
next
  case (3 env c cs)
  then show ?case by simp
next
  case (4 env n ns)
  then show ?case by simp
next
  case (5 env c cs n ns)
  let ?s0 = "getOrCreateWrapper n s"
  have stable0: "keyStable env ?s0" using "5.prems"(3) by simp
  show ?case
  proof (cases "matchesList env n")
    case True
    let ?out = "handleSyntaxList env (Some c) n ?s0"
    from True "5.prems" have shape: "alignedList env c n" "alignedChildren env cs ns"
      and keeps: "list_all (keepsKey env) (partnersList env c n)"
        "list_all (keepsKey env) (partnersChildren env cs ns)"
      and dispatch: "isSyntaxListChild env s n"
      by (simp_all add: keyStable_dispatch)
    from "5.IH"(1) [OF True shape(1) keeps(1) stable0]
    have first: "replaces ?out (partnersList env c n) s" by simp
    then have ok: "fst ?out = None" by (simp add: replaces_def)
    have "keyStable env (snd ?out)"
      using first "5.prems"(3) keeps(1) by (rule replaces_stable)
    from "5.IH"(3) [OF shape(2) keeps(2) this]
    have "replaces (handleNodeChildren env cs ns (snd ?out)) (partnersChildren env cs ns) (snd ?out)" .
    with first have "replaces (handleNodeChildren env cs ns (snd ?out))
        (partnersList env c n @ partnersChildren env cs ns) s"
      by (rule replaces_seq)
    moreover have "handleNodeChildren env (c # cs) (n # ns) s
        = handleNodeChildren env cs ns (snd ?out)"
      using dispatch ok by (simp add: nextValue_def advance_def case_None)
    ultimately show ?thesis using True by simp
  next
    case False
    let ?out = "handleNode env (Some c) n ?s0"
    from False "5.prems" have shape: "aligned env c n" "alignedChildren env cs ns"
      and keeps: "list_all (keepsKey env) (partners env c n)"
        "list_all (keepsKey env) (partnersChildren env cs ns)"
      and dispatch: "\<not> isSyntaxListChild env s n"
      by (simp_all add: keyStable_dispatch)
    from "5.IH"(2) [OF False shape(1) keeps(1) stable0]
    have first: "replaces ?out (partners env c n) s" by simp
    then have ok: "fst ?out = None" by (simp add: replaces_def)
    have "keyStable env (snd ?out)"
      using first "5.prems"(3) keeps(1) by (rule replaces_stable)
    from "5.IH"(3) [OF shape(2) keeps(2) this]
    have "replaces (handleNodeChildren env cs ns (snd ?out)) (partnersChildren env cs ns) (snd ?out)" .
    with first have "replaces (handleNodeChildren env cs ns (snd ?out))
        (partners env c n @ partnersChildren env cs ns) s"
      by (rule replaces_seq)
    moreover have "handleNodeChildren env (c # cs) (n # ns) s
        = handleNodeChildren env cs ns (snd ?out)"
      using dispatch ok by (simp add: nextValue_def advance_def case_None)
    ultimately show ?thesis using False by simp
  qed
next
  case (6 env c i k p e par ns)
  let ?n = "Node i k p e par ns"
  let ?s0 = "wrapChildren ns s"
  let ?out = "handleSyntaxListChildren env 0 (getChildren c) ns ?s0"
  from "6.prems" have kinds: "getKind c = getKind ?n" and shape: "alignedItems env 0 (getChildren c) ns"
    and keeps: "list_all (keepsKey env) (partnersItems env 0 (getChildren c) ns)"
    by simp_all
  have "keyStable env ?s0" using "6.prems"(3) by simp
  from "6.IH" [OF shape keeps this]
  have out: "replaces ?out (partnersItems env 0 (getChildren c) ns) s" by simp
  then have "fst ?out = None" by (simp add: replaces_def)
  then have "handleSyntaxList env (Some c) ?n s = replaceCompilerNode c ?n (snd ?out)"
    by (simp add: case_None)
  with replaces_replace [OF out kinds] show ?case by simp
next
  case (7 env i)
  show ?case by (simp add: replaces_def)
next
  case (8 env i c cs)
  then show ?case by simp
next
  case (9 env i n ns)
  then show ?case by (simp split: if_splits)
next
  case (10 env i c cs n ns)
  show ?case
  proof (cases "inInsertedRange env i")
    case True
    with "10.IH"(1) [OF True _ _ "10.prems"(3)] "10.prems" show ?thesis by simp
  next
    case False
    let ?out = "handleNode env (Some c) n s"
    from False "10.prems" have shape: "aligned env c n" "alignedItems env (i + 1) cs ns"
      and keeps: "list_all (keepsKey env) (partners env c n)"
        "list_all (keepsKey env) (partnersItems env (i + 1) cs ns)"
      by simp_all
    from "10.IH"(2) [OF False shape(1) keeps(1) "10.prems"(3)]
    have first: "replaces ?out (partners env c n) s" .
    then have ok: "fst ?out = None" by (simp add: replaces_def)
    have "keyStable env (snd ?out)"
      using first "10.prems"(3) keeps(1) by (rule replaces_stable)
    from "10.IH"(3) [OF False shape(2) keeps(2) this]
    have "replaces (handleSyntaxListChildren env (i + 1) cs ns (snd ?out))
            (partnersItems env (i + 1) cs ns) (snd ?out)" .
    with first have "replaces (handleSyntaxListChildren env (i + 1) cs ns (snd ?out))
        (partners env c n @ partnersItems env (i + 1) cs ns) s"
      by (rule replaces_seq)
    moreover have "handleSyntaxListChildren env i (c # cs) (n # ns) s
        = handleSyntaxListChildren env (i + 1) cs ns (snd ?out)"
      using False ok by (simp add: nextValue_def advance_def case_None)
    ultimately show ?thesis using False by simp
  qed
qed

text \<open>
  \<open>reached env pairs s s'\<close>: wrappers made apart, \<open>s'\<close> is \<open>s\<close> after the replacements of
  some of the pairs.
\<close>

lemma reached_refl:
  "\<exists>qs. set qs \<subseteq> P \<and> core s = replaceAll qs (core s)"
  by (rule exI [of _ "[]"]) simp

lemma reached_replaces:
  assumes "replaces out ps s" and "set ps \<subseteq> P"
  shows "\<exists>qs. set qs \<subseteq> P \<and> core (snd out) = replaceAll qs (core s)"
  using assms by (auto simp: replaces_def)

lemma invokes_aligned:
  assumes "invokes env (a, s) (b, s')" and "alignedCall env a"
    and "list_all (keepsKey env) (partnersOf env a)" and "keyStable env s"
  shows "alignedCall env b \<and> set (partnersOf env b) \<subseteq> set (partnersOf env a)
         \<and> set (insertedOf env b) \<subseteq> set (insertedOf env a) \<and> keyStable env s'
         \<and> (\<exists>qs. set qs \<subseteq> set (partnersOf env a) \<and> core s' = replaceAll qs (core s))"
  using assms
proof (induction "(a, s)" "(b, s')" rule: invokes.induct)
  case (node_children c n)
  then show ?case
    using reached_refl [of "set (partnersOf env a)" s]
    by (auto simp: aligned_unfold [of env c n] partners_unfold [of env c n]
        inserted_unfold [of env c n])
next
  case (child_list nc it rest)
  then show ?case
    using reached_refl [of "set (partnersOf env a)" s]
    by (cases it) (auto simp: nextValue_def keyStable_dispatch)
next
  case (child_node nc it rest)
  then show ?case
    using reached_refl [of "set (partnersOf env a)" s]
    by (cases it) (auto simp: nextValue_def keyStable_dispatch)
next
  case (child_list_next nc it rest)
  then have m: "matchesList env nc" by (simp add: keyStable_dispatch)
  from child_list_next obtain c cs where it: "it = c # cs" by (cases it) auto
  with child_list_next m have shape: "alignedList env c nc"
    and keeps: "list_all (keepsKey env) (partnersList env c nc)" and stable: "keyStable env s"
    by auto
  let ?out = "handleSyntaxList env (Some c) nc (getOrCreateWrapper nc s)"
  from shape keeps stable have out: "replaces ?out (partnersList env c nc) s"
    using walk_aligned(3) [of env c nc "getOrCreateWrapper nc s"] by simp
  from child_list_next it have s': "s' = snd ?out" by (simp add: nextValue_def)
  from out stable keeps have "keyStable env (snd ?out)" by (rule replaces_stable)
  moreover from child_list_next it m have "set (partnersList env c nc) \<subseteq> set (partnersOf env a)"
    by auto
  with out have "\<exists>qs. set qs \<subseteq> set (partnersOf env a) \<and> core (snd ?out) = replaceAll qs (core s)"
    by (rule reached_replaces)
  ultimately show ?case using child_list_next it s' by (auto simp: advance_def)
next
  case (child_node_next nc it rest)
  then have m: "\<not> matchesList env nc" by (simp add: keyStable_dispatch)
  from child_node_next obtain c cs where it: "it = c # cs" by (cases it) auto
  with child_node_next m have shape: "aligned env c nc"
    and keeps: "list_all (keepsKey env) (partners env c nc)" and stable: "keyStable env s"
    by auto
  let ?out = "handleNode env (Some c) nc (getOrCreateWrapper nc s)"
  from shape keeps stable have out: "replaces ?out (partners env c nc) s"
    using walk_aligned(1) [of env c nc "getOrCreateWrapper nc s"] by simp
  from child_node_next it have s': "s' = snd ?out" by (simp add: nextValue_def)
  from out stable keeps have "keyStable env (snd ?out)" by (rule replaces_stable)
  moreover from child_node_next it m have "set (partners env c nc) \<subseteq> set (partnersOf env a)"
    by auto
  with out have "\<exists>qs. set qs \<subseteq> set (partnersOf env a) \<and> core (snd ?out) = replaceAll qs (core s)"
    by (rule reached_replaces)
  ultimately show ?case using child_node_next it s' by (auto simp: advance_def)
next
  case (list_children c n)
  then show ?case
    using reached_refl [of "set (partnersOf env a)" s]
    by (auto simp: alignedList_unfold [of env c n] partnersList_unfold [of env c n]
        insertedList_unfold [of env c n])
next
  case (item_skipped i it nc rest)
  then show ?case
    using reached_refl [of "set (partnersOf env a)" s]
    by (cases it) auto
next
  case (item_node i it nc rest)
  then show ?case
    using reached_refl [of "set (partnersOf env a)" s]
    by (cases it) (auto simp: nextValue_def)
next
  case (item_next i it nc rest)
  from item_next obtain c cs where it: "it = c # cs" by (cases it) auto
  with item_next have shape: "aligned env c nc"
    and keeps: "list_all (keepsKey env) (partners env c nc)" and stable: "keyStable env s"
    by auto
  let ?out = "handleNode env (Some c) nc s"
  from shape keeps stable have out: "replaces ?out (partners env c nc) s"
    by (rule walk_aligned(1))
  from item_next it have s': "s' = snd ?out" by (simp add: nextValue_def)
  from out stable keeps have "keyStable env (snd ?out)" by (rule replaces_stable)
  moreover from item_next it have "set (partners env c nc) \<subseteq> set (partnersOf env a)"
    by auto
  with out have "\<exists>qs. set qs \<subseteq> set (partnersOf env a) \<and> core (snd ?out) = replaceAll qs (core s)"
    by (rule reached_replaces)
  ultimately show ?case using item_next it s' by (auto simp: advance_def)
qed auto

lemma list_all_subset: "set ps \<subseteq> set qs \<Longrightarrow> list_all P qs \<Longrightarrow> list_all P ps"
  by (auto simp: list_all_iff)

lemma reaches_aligned:
  assumes "(invokes env)\<^sup>*\<^sup>* (a, s) (b, s')" and "alignedCall env a"
    and "list_all (keepsKey env) (partnersOf env a)" and "keyStable env s"
  shows "alignedCall env b \<and> set (partnersOf env b) \<subseteq> set (partnersOf env a)
         \<and> set (insertedOf env b) \<subseteq> set (insertedOf env a) \<and> keyStable env s'
         \<and> (\<exists>qs. set qs \<subseteq> set (partnersOf env a) \<and> core s' = replaceAll qs (core s))"
  using assms
proof (induction "(a, s)" arbitrary: a s rule: converse_rtranclp_induct)
  case base
  then show ?case using reached_refl [of "set (partnersOf env b)" s'] by simp
next
  case (step z)
  obtain c t where z: "z = (c, t)" by (cases z)
  from step(1) z step(4,5,6) have 1: "alignedCall env c"
    "set (partnersOf env c) \<subseteq> set (partnersOf env a)"
    "set (insertedOf env c) \<subseteq> set (insertedOf env a)" "keyStable env t"
    and "\<exists>qs. set qs \<subseteq> set (partnersOf env a) \<and> core t = replaceAll qs (core s)"
    using invokes_aligned by blast+
  then obtain qs1 where qs1: "set qs1 \<subseteq> set (partnersOf env a)" "core t = replaceAll qs1 (core s)"
    by blast
  from 1(2) step(5) have keeps: "list_all (keepsKey env) (partnersOf env c)"
    by (rule list_all_subset)
  from step(3) [OF z 1(1) keeps 1(4)] have 2: "alignedCall env b"
    "set (partnersOf env b) \<subseteq> set (partnersOf env c)"
    "set (insertedOf env b) \<subseteq> set (insertedOf env c)" "keyStable env s'"
    and "\<exists>qs. set qs \<subseteq> set (partnersOf env c) \<and> core s' = replaceAll qs (core t)"
    by blast+
  then obtain qs2 where qs2: "set qs2 \<subseteq> set (partnersOf env c)" "core s' = replaceAll qs2 (core t)"
    by blast
  from qs1 qs2 1(2) have "set (qs1 @ qs2) \<subseteq> set (partnersOf env a)"
    "core s' = replaceAll (qs1 @ qs2) (core s)"
    by (auto simp: replaceAll_append)
  then have "\<exists>qs. set qs \<subseteq> set (partnersOf env a) \<and> core s' = replaceAll qs (core s)"
    by blast
  with 1 2 show ?case by blast
qed

lemma partners_self: "(c, n) \<in> set (partners env c n)"
  by (simp add: partners_unfold [of env c n])

lemma alignedItems_pairs:
  "alignedItems env i cs ns \<Longrightarrow>
     length (outsideInsertedRange env i ns) = length cs
     \<and> set (zip cs (outsideInsertedRange env i ns)) \<subseteq> set (partnersItems env i cs ns)"
proof (induction ns arbitrary: i cs)
  case Nil
  then show ?case by (cases cs) auto
next
  case (Cons n ns)
  show ?case
  proof (cases "inInsertedRange env i")
    case True
    with Cons.prems have "alignedItems env (i + 1) cs ns" by (cases cs) auto
    from Cons.IH [OF this] True show ?thesis
      by (cases cs) (auto simp: inInsertedRange_def)
  next
    case False
    with Cons.prems obtain c cs' where cs: "cs = c # cs'" and rest: "alignedItems env (i + 1) cs' ns"
      by (cases cs) auto
    from Cons.IH [OF rest] False cs show ?thesis
      by (auto simp: inInsertedRange_def partners_self)
  qed
qed

lemma outsideInsertedRange_closed:
  assumes "0 \<le> insertItemsCount env"
  shows "outsideInsertedRange env i ns
           = take (nat (childIndex env - i)) ns
             @ drop (nat (childIndex env + insertItemsCount env - i)) ns"
  using assms
proof (induction ns arbitrary: i)
  case Nil
  then show ?case by simp
next
  case (Cons n ns)
  have nat1: "nat (childIndex env - i) = Suc (nat (childIndex env - (i + 1)))" if "i < childIndex env"
    using that by simp
  have nat2: "nat (childIndex env + insertItemsCount env - i)
                = Suc (nat (childIndex env + insertItemsCount env - (i + 1)))"
    if "i < childIndex env + insertItemsCount env"
    using that by simp
  consider (before) "i < childIndex env"
    | (inside) "childIndex env \<le> i" "i < childIndex env + insertItemsCount env"
    | (after) "childIndex env + insertItemsCount env \<le> i"
    by linarith
  then show ?case
  proof cases
    case before
    with Cons.prems have "i < childIndex env + insertItemsCount env" by simp
    with before Cons.IH [OF Cons.prems, of "i + 1"] show ?thesis
      by (simp add: nat1 nat2)
  next
    case inside
    with Cons.IH [OF Cons.prems, of "i + 1"] show ?thesis
      by (simp add: nat2)
  next
    case after
    with Cons.prems have "childIndex env \<le> i" by simp
    with after Cons.IH [OF Cons.prems, of "i + 1"] show ?thesis
      by simp
  qed
qed

lemma nodesOf_self: "n \<in> set (nodesOf n)"
  by (cases n) simp

lemma alignedItems_inserted:
  "alignedItems env i cs ns \<Longrightarrow> j < length ns \<Longrightarrow> inInsertedRange env (i + int j) \<Longrightarrow>
     ns ! j \<in> set (insertedItems env i cs ns)"
proof (induction ns arbitrary: i cs j)
  case Nil
  then show ?case by simp
next
  case (Cons n ns)
  show ?case
  proof (cases j)
    case 0
    with Cons.prems show ?thesis by (cases cs) (auto simp: nodesOf_self)
  next
    case (Suc j')
    have step: "inInsertedRange env ((i + 1) + int j')"
      using Cons.prems(3) Suc by (simp add: add.commute add.left_commute)
    show ?thesis
    proof (cases "inInsertedRange env i")
      case True
      with Cons.prems have "alignedItems env (i + 1) cs ns" by (cases cs) auto
      from Cons.IH [OF this _ step, of ] Cons.prems(2) Suc True show ?thesis
        by (cases cs) auto
    next
      case False
      with Cons.prems obtain c cs' where cs: "cs = c # cs'"
        and rest: "alignedItems env (i + 1) cs' ns"
        by (cases cs) auto
      from Cons.IH [OF rest _ step] Cons.prems(2) Suc False cs show ?thesis
        by auto
    qed
  qed
qed

subsection \<open>An aligned walk succeeds\<close>

lemma valid_index_runs_walk:
  "0 \<le> idx \<Longrightarrow> idx \<le> int (length (getChildren sl)) \<Longrightarrow>
   insertIntoSyntaxList parse sf t p added sl idx cnt s
     = handleNode \<lparr>syntaxList = sl, syntaxListParent = getParent sl,
                   childIndex = idx, insertItemsCount = cnt\<rparr>
         (Some sf) (parse (newFileText t p added))
         (getOrCreateWrapper (parse (newFileText t p added)) s)"
  by (simp add: insertIntoSyntaxList_def Let_def)

lemma nodeCache_replaceAll_None:
  "nodeCache s u = None \<Longrightarrow> u \<notin> set (map (ident \<circ> snd) qs) \<Longrightarrow>
     nodeCache (replaceAll qs s) u = None"
proof (induction qs arbitrary: s)
  case Nil
  then show ?case by simp
next
  case (Cons q qs)
  obtain c n where q: "q = (c, n)" by (cases q)
  with Cons.prems have "nodeCache (snd (replaceCompilerNode c n s)) u = None"
    by (auto simp: replaceCompilerNode_def dropOld_def split: option.splits)
  with Cons.IH [of "snd (replaceCompilerNode c n s)"] Cons.prems(2) q show ?case by simp
qed

text \<open>What an aligned pair of trees gives once the walk is through.\<close>

lemma aligned_walk_registry:
  assumes shape: "aligned env cur new"
    and keeps: "list_all (keepsKey env) (partners env cur new)"
    and stable: "keyStable env s"
    and wrappers: "distinct (identsOf cur)"
    and parsed: "distinct (identsOf new)"
    and held: "\<forall>c \<in> set (nodesOf cur). \<forall>old. compilerNodeOf s (ident c) = Some old \<longrightarrow>
                 set (identsOf old) \<inter> set (identsOf new) = {}"
  defines "ps \<equiv> partners env cur new"
  defines "s' \<equiv> snd (handleNode env (Some cur) new s)"
  shows "fst (handleNode env (Some cur) new s) = None"
    and "forgotten s' = forgotten s"
    and "fst ` set ps = set (nodesOf cur)"
    and "snd ` set ps \<subseteq> set (nodesOf new)"
    and "(c, n) \<in> set ps \<Longrightarrow>
          compilerNodeOf s' (ident c) = Some n \<and> nodeCache s' (ident n) = Some (ident c)
          \<and> getKind n = getKind c"
    and "x \<in> set (inserted env cur new) \<Longrightarrow> nodeCache s' (ident x) = nodeCache s (ident x)"
    and "x \<in> set (inserted env cur new) \<Longrightarrow> ident x \<notin> set (map (ident \<circ> snd) ps)"
proof -
  have walk: "replaces (handleNode env (Some cur) new s) ps s"
    unfolding ps_def using shape keeps stable by (rule walk_aligned(1))
  then have "core s' = replaceAll ps (core s)" by (simp add: s'_def replaces_def)
  then have "compilerNodeOf (core s') = compilerNodeOf (replaceAll ps (core s))"
    and "nodeCache (core s') = nodeCache (replaceAll ps (core s))"
    and "forgotten (core s') = forgotten (replaceAll ps (core s))"
    by simp_all
  then have s': "compilerNodeOf s' = compilerNodeOf (replaceAll ps (core s))"
    "nodeCache s' = nodeCache (replaceAll ps (core s))"
    "forgotten s' = forgotten (replaceAll ps (core s))"
    by simp_all
  from walk show "fst (handleNode env (Some cur) new s) = None" by (simp add: replaces_def)
  from s' show "forgotten s' = forgotten s" by (simp add: forgotten_replaceAll)
  have firsts: "mset (map fst ps) = mset (nodesOf cur)"
    and seconds: "mset (map snd ps) + mset (inserted env cur new) = mset (nodesOf new)"
    unfolding ps_def using partners_mset(1) [OF shape] by simp_all
  from firsts have "set (map fst ps) = set (nodesOf cur)" by (rule mset_eq_setD)
  then show fst_ps: "fst ` set ps = set (nodesOf cur)" by simp
  from firsts have "mset (map (ident \<circ> fst) ps) = mset (identsOf cur)"
    by (metis identsOf_def map_map mset_map)
  with wrappers have d1: "distinct (map (ident \<circ> fst) ps)"
    by (metis mset_eq_imp_distinct_iff)
  from seconds have "mset (map snd ps @ inserted env cur new) = mset (nodesOf new)" by simp
  then have "mset (map ident (map snd ps @ inserted env cur new)) = mset (identsOf new)"
    by (metis identsOf_def mset_map)
  with parsed have "distinct (map ident (map snd ps @ inserted env cur new))"
    by (metis mset_eq_imp_distinct_iff)
  then have d2: "distinct (map (ident \<circ> snd) ps)"
    and apart: "\<And>x. x \<in> set (inserted env cur new) \<Longrightarrow> ident x \<notin> set (map (ident \<circ> snd) ps)"
    by (auto simp: comp_def)
  from seconds have "set (map snd ps @ inserted env cur new) = set (nodesOf new)"
    by (metis mset_append mset_eq_setD)
  then have in_new: "snd ` set ps \<subseteq> set (nodesOf new)"
    and ins_new: "set (inserted env cur new) \<subseteq> set (nodesOf new)"
    by auto
  from in_new show "snd ` set ps \<subseteq> set (nodesOf new)" .
  have kinds: "\<forall>(a, b) \<in> set ps. getKind a = getKind b"
    unfolding ps_def using partners_kinds(1) [OF shape] by blast
  have held_ps: "set (identsOf old) \<inter> set (identsOf new) = {}"
    if "(a, b) \<in> set ps" and "compilerNodeOf (core s) (ident a) = Some old" for a b old
  proof -
    from that(1) fst_ps have "a \<in> set (nodesOf cur)" by force
    with held that(2) show ?thesis by simp
  qed
  have new_ids: "set (map (ident \<circ> snd) ps) \<subseteq> set (identsOf new)"
    using in_new by (auto simp: identsOf_def)
  {
    assume cn: "(c, n) \<in> set ps"
    have "compilerNodeOf (replaceAll ps (core s)) (ident c) = Some n"
      using cn d1 kinds by (rule compilerNodeOf_replaceAll)
    moreover have "nodeCache (replaceAll ps (core s)) (ident n) = Some (ident c)"
      using cn d1 d2 kinds
    proof (rule nodeCache_replaceAll)
      show "\<forall>(a, b) \<in> set ps. \<forall>old. compilerNodeOf (core s) (ident a) = Some old \<longrightarrow>
              set (identsOf old) \<inter> set (map (ident \<circ> snd) ps) = {}"
        using held_ps new_ids by blast
    qed
    moreover have "getKind n = getKind c" using cn kinds by auto
    ultimately show "compilerNodeOf s' (ident c) = Some n \<and> nodeCache s' (ident n) = Some (ident c)
          \<and> getKind n = getKind c"
      by (simp add: s')
  }
  {
    assume x: "x \<in> set (inserted env cur new)"
    from apart [OF x] show "ident x \<notin> set (map (ident \<circ> snd) ps)" .
    from x have "ident x \<in> set (identsOf new)" using ins_new by (auto simp: identsOf_def)
    then have "\<forall>(a, b) \<in> set ps. \<forall>old. compilerNodeOf (core s) (ident a) = Some old \<longrightarrow>
                 ident x \<notin> set (identsOf old)"
      using held_ps by blast
    with apart [OF x] d1
    have "nodeCache (replaceAll ps (core s)) (ident x) = nodeCache (core s) (ident x)"
      by (rule nodeCache_replaceAll_other)
    then show "nodeCache s' (ident x) = nodeCache s (ident x)" by (simp add: s')
  }
qed

subsection \<open>Insertion keeps the wrappers\<close>

text \<open>
  C1. An edit that inserts \<open>cnt\<close> new siblings at index \<open>idx\<close> of the list, by a text
  of \<open>len\<close> characters put in at \<open>p\<close>. What is assumed of the parser and of the input: the
  new tree is aligned with the wrapped tree; every node that has a counterpart has the
  offsets of that counterpart, moved by \<open>len\<close> where they lie behind \<open>p\<close>; the list and
  its parent start where they started and keep their kind; the walk hands the caller's
  list and the candidate list \<open>list'\<close> to the splice walk, and \<open>list'\<close> has exactly
  \<open>cnt\<close> children more; the wrappers are distinct objects, so are the parsed nodes, and
  the parsed nodes are new to the registry.

  Then the edit succeeds and no wrapper is forgotten. Every wrapper of the tree has a
  partner among the nodes of the new tree, of the same kind and with the offsets moved as
  said, which is its current node and which the registry maps back to this very wrapper.
  The current node of the list is \<open>list'\<close>. The child \<open>j\<close> of the list is the wrapper of
  the child \<open>j\<close> of \<open>list'\<close> when \<open>j < idx\<close> and of the child \<open>j + cnt\<close> otherwise. For
  each of the \<open>cnt\<close> children of \<open>list'\<close> from \<open>idx\<close> to \<open>idx + cnt - 1\<close> the registry
  has none of the numbered wrappers but one that was made during the edit.
\<close>

theorem insertion_keeps_wrapper_identity:
  fixes parse :: "string \<Rightarrow> node" and sf sl list' :: node and t added :: string
    and p idx cnt :: int and s sl' :: registry
  defines "env \<equiv> \<lparr>syntaxList = sl, syntaxListParent = getParent sl,
                    childIndex = idx, insertItemsCount = cnt\<rparr>"
    and "new \<equiv> parse (newFileText t p added)"
    and "s' \<equiv> snd (insertIntoSyntaxList parse sf t p added sl idx cnt s)"
    and "shifted \<equiv> \<lambda>j. if int j < idx then j else j + nat cnt"
    and "len \<equiv> int (length added)"
  assumes valid: "0 \<le> idx" "idx \<le> int (length (getChildren sl))" "0 \<le> cnt"
    and shape: "aligned env sf new"
    and offsets: "list_all (shiftedSpan p len) (partners env sf new)"
    and keeps: "list_all (keepsKey env) (partners env sf new)"
    and stable: "keyStable env s"
    and target: "(invokes env)\<^sup>*\<^sup>* (HandleNode (Some sf) new, getOrCreateWrapper new s)
                   (HandleSyntaxList (Some sl) list', sl')"
    and exact: "length (getChildren list') = length (getChildren sl) + nat cnt"
    and wrappers: "distinct (identsOf sf)"
    and parsed: "distinct (identsOf new)"
    and fresh: "\<forall>u \<in> set (identsOf new). nodeCache s u = None"
    and held: "\<forall>c \<in> set (nodesOf sf). \<forall>old. compilerNodeOf s (ident c) = Some old \<longrightarrow>
                 set (identsOf old) \<inter> set (identsOf new) = {}"
  shows "fst (insertIntoSyntaxList parse sf t p added sl idx cnt s) = None
       \<and> forgotten s' = forgotten s
       \<and> (\<forall>c \<in> set (nodesOf sf). \<exists>n \<in> set (nodesOf new).
             compilerNodeOf s' (ident c) = Some n \<and> nodeCache s' (ident n) = Some (ident c)
             \<and> getKind n = getKind c
             \<and> movedBy p len (getPos c) (getPos n) \<and> movedBy p len (getEnd c) (getEnd n))
       \<and> fst ` set (partners env sf new) = set (nodesOf sf)
       \<and> (\<forall>(c, n) \<in> set (partners env sf new).
             compilerNodeOf s' (ident c) = Some n \<and> nodeCache s' (ident n) = Some (ident c)
             \<and> getKind n = getKind c)
       \<and> compilerNodeOf s' (ident sl) = Some list'
       \<and> (\<forall>j < length (getChildren sl).
             compilerNodeOf s' (ident (getChildren sl ! j)) = Some (getChildren list' ! shifted j)
             \<and> nodeCache s' (ident (getChildren list' ! shifted j)) = Some (ident (getChildren sl ! j)))
       \<and> (\<forall>j. nat idx \<le> j \<and> j < nat idx + nat cnt \<longrightarrow>
             nodeCache s' (ident (getChildren list' ! j)) = None
             \<and> ident (getChildren list' ! j) \<in> made s')"
proof -
  let ?cs = "getChildren sl" and ?ns = "getChildren list'"
  let ?s0 = "getOrCreateWrapper new s"
  let ?ps = "partners env sf new"
  have run: "insertIntoSyntaxList parse sf t p added sl idx cnt s = handleNode env (Some sf) new ?s0"
    unfolding env_def new_def using valid(1,2) by (rule valid_index_runs_walk)
  then have s': "s' = snd (handleNode env (Some sf) new ?s0)" by (simp add: s'_def)
  have stable0: "keyStable env ?s0" using stable by simp
  have held0: "\<forall>c \<in> set (nodesOf sf). \<forall>old. compilerNodeOf ?s0 (ident c) = Some old \<longrightarrow>
                 set (identsOf old) \<inter> set (identsOf new) = {}"
    using held by simp
  note reg = aligned_walk_registry [OF shape keeps stable0 wrappers parsed held0, folded s']
  have idx: "childIndex env = idx" and cnt: "insertItemsCount env = cnt"
    by (simp_all add: env_def)
  from reaches_aligned [OF target] shape keeps stable0
  have list_shape: "alignedList env sl list'"
    and list_ps: "set (partnersList env sl list') \<subseteq> set ?ps"
    and list_ins: "set (insertedList env sl list') \<subseteq> set (inserted env sf new)"
    and "\<exists>qs. set qs \<subseteq> set ?ps \<and> core sl' = replaceAll qs (core ?s0)"
    by simp_all
  then obtain qs where qs: "set qs \<subseteq> set ?ps" "core sl' = replaceAll qs (core s)"
    by auto
  from list_shape have items: "alignedItems env 0 ?cs ?ns"
    by (simp add: alignedList_unfold [of env sl list'])
  from list_ps have the_list: "(sl, list') \<in> set ?ps"
    by (auto simp: partnersList_unfold [of env sl list'])
  let ?out = "outsideInsertedRange env 0 ?ns"
  from alignedItems_pairs [OF items] have len: "length ?out = length ?cs"
    and pairs: "set (zip ?cs ?out) \<subseteq> set (partnersItems env 0 ?cs ?ns)"
    by simp_all
  have out: "?out = take (nat idx) ?ns @ drop (nat (idx + cnt)) ?ns"
    using outsideInsertedRange_closed [of env 0 ?ns] valid(3) by (simp add: idx cnt)
  have children: "(?cs ! j, ?ns ! shifted j) \<in> set ?ps" if j: "j < length ?cs" for j
  proof -
    from j len have "(?cs ! j, ?out ! j) \<in> set (zip ?cs ?out)"
      by (metis in_set_zip fst_conv snd_conv)
    with pairs list_ps have mem: "(?cs ! j, ?out ! j) \<in> set ?ps"
      by (auto simp: partnersList_unfold [of env sl list'])
    have "?out ! j = ?ns ! shifted j"
    proof (cases "int j < idx")
      case True
      with valid exact j have "j < length (take (nat idx) ?ns)" by simp
      with True show ?thesis by (simp add: out nth_append shifted_def)
    next
      case False
      with valid exact j have "length (take (nat idx) ?ns) = nat idx" "nat idx \<le> j"
        "nat (idx + cnt) + (j - nat idx) = j + nat cnt" "nat (idx + cnt) \<le> length ?ns"
        by (simp_all add: nat_add_distrib)
      with False show ?thesis by (simp add: out nth_append shifted_def)
    qed
    with mem show ?thesis by simp
  qed
  have next_call: "(invokes env)\<^sup>*\<^sup>* (HandleNode (Some sf) new, ?s0)
                     (HandleSyntaxListChildren 0 ?cs ?ns, wrapChildren ?ns sl')"
    using target list_children [of env sl list' sl'] by (rule rtranclp.rtrancl_into_rtrancl)
  have kept_made: "made (wrapChildren ?ns sl') \<subseteq> made s'"
  proof -
    from reaches_grows [OF next_call]
    have "made (snd (run env (HandleSyntaxListChildren 0 ?cs ?ns) (wrapChildren ?ns sl')))
            \<subseteq> made s'"
      by (simp add: s')
    with grows_run [of env "HandleSyntaxListChildren 0 ?cs ?ns" "wrapChildren ?ns sl'"]
    show ?thesis by blast
  qed
  have skipped: "nodeCache s' (ident (?ns ! j)) = None \<and> ident (?ns ! j) \<in> made s'"
    if j: "nat idx \<le> j" "j < nat idx + nat cnt" for j
  proof -
    from j valid exact have in_ns: "j < length ?ns" by simp
    moreover from j valid have "inInsertedRange env (0 + int j)"
      by (simp add: inInsertedRange_def idx cnt) linarith
    ultimately have "?ns ! j \<in> set (insertedItems env 0 ?cs ?ns)"
      using alignedItems_inserted [OF items] by blast
    with list_ins have x: "?ns ! j \<in> set (inserted env sf new)"
      by (auto simp: insertedList_unfold [of env sl list'])
    have "mset (map snd ?ps) + mset (inserted env sf new) = mset (nodesOf new)"
      using partners_mset(1) [OF shape] by simp
    then have "set (map snd ?ps @ inserted env sf new) = set (nodesOf new)"
      by (metis mset_append mset_eq_setD)
    with x have "ident (?ns ! j) \<in> set (identsOf new)" by (auto simp: identsOf_def)
    with fresh have none: "nodeCache s (ident (?ns ! j)) = None" by blast
    with reg(6) [OF x] have after: "nodeCache s' (ident (?ns ! j)) = None" by simp
    from reg(7) [OF x] qs(1) have "ident (?ns ! j) \<notin> set (map (ident \<circ> snd) qs)" by auto
    with none have "nodeCache (replaceAll qs (core s)) (ident (?ns ! j)) = None"
      by (intro nodeCache_replaceAll_None) simp_all
    with qs(2) have "nodeCache (core sl') (ident (?ns ! j)) = None" by simp
    then have "nodeCache sl' (ident (?ns ! j)) = None" by simp
    with in_ns have "ident (?ns ! j) \<in> made (wrapChildren ?ns sl')"
      by (intro wrapChildren_made) simp_all
    with kept_made after show ?thesis by blast
  qed
  from run reg(1) have "fst (insertIntoSyntaxList parse sf t p added sl idx cnt s) = None" by simp
  moreover from reg(2) have "forgotten s' = forgotten s" by simp
  moreover have "\<forall>c \<in> set (nodesOf sf). \<exists>n \<in> set (nodesOf new).
             compilerNodeOf s' (ident c) = Some n \<and> nodeCache s' (ident n) = Some (ident c)
             \<and> getKind n = getKind c
             \<and> movedBy p len (getPos c) (getPos n) \<and> movedBy p len (getEnd c) (getEnd n)"
  proof
    fix c
    assume "c \<in> set (nodesOf sf)"
    with reg(3) obtain n where cn: "(c, n) \<in> set ?ps" by force
    with reg(4) have "n \<in> set (nodesOf new)" by force
    moreover from cn offsets have "shiftedSpan p len (c, n)" by (auto simp: list_all_iff)
    then have "movedBy p len (getPos c) (getPos n) \<and> movedBy p len (getEnd c) (getEnd n)"
      by (simp add: shiftedSpan_def)
    ultimately show "\<exists>n \<in> set (nodesOf new).
             compilerNodeOf s' (ident c) = Some n \<and> nodeCache s' (ident n) = Some (ident c)
             \<and> getKind n = getKind c
             \<and> movedBy p len (getPos c) (getPos n) \<and> movedBy p len (getEnd c) (getEnd n)"
      using reg(5) [OF cn] by blast
  qed
  moreover note reg(3)
  moreover have "\<forall>(c, n) \<in> set ?ps.
             compilerNodeOf s' (ident c) = Some n \<and> nodeCache s' (ident n) = Some (ident c)
             \<and> getKind n = getKind c"
    using reg(5) by blast
  moreover from reg(5) [OF the_list] have "compilerNodeOf s' (ident sl) = Some list'" by simp
  moreover have "\<forall>j < length ?cs.
             compilerNodeOf s' (ident (?cs ! j)) = Some (?ns ! shifted j)
             \<and> nodeCache s' (ident (?ns ! shifted j)) = Some (ident (?cs ! j))"
    using reg(5) children by blast
  moreover have "\<forall>j. nat idx \<le> j \<and> j < nat idx + nat cnt \<longrightarrow>
             nodeCache s' (ident (?ns ! j)) = None \<and> ident (?ns ! j) \<in> made s'"
    using skipped by blast
  ultimately show ?thesis by blast
qed

theorem insertion_keeps_wrapper_identity_witness:
  "fst (insertIntoSyntaxList (\<lambda>_. newFile) fileWrapper ''A;'' 2 ''B;'' listWrapper 1 1 registry0)
     = None
   \<and> compilerNodeOf (snd (insertIntoSyntaxList (\<lambda>_. newFile) fileWrapper ''A;'' 2 ''B;''
                             listWrapper 1 1 registry0)) (ident listWrapper) = Some newList
   \<and> compilerNodeOf (snd (insertIntoSyntaxList (\<lambda>_. newFile) fileWrapper ''A;'' 2 ''B;''
                             listWrapper 1 1 registry0)) (ident stmtWrapper) = Some newStmtA
   \<and> nodeCache (snd (insertIntoSyntaxList (\<lambda>_. newFile) fileWrapper ''A;'' 2 ''B;''
                        listWrapper 1 1 registry0)) (ident newStmtA) = Some (ident stmtWrapper)
   \<and> nodeCache (snd (insertIntoSyntaxList (\<lambda>_. newFile) fileWrapper ''A;'' 2 ''B;''
                        listWrapper 1 1 registry0)) (ident newStmtB) = None
   \<and> ident newStmtB \<in> made (snd (insertIntoSyntaxList (\<lambda>_. newFile) fileWrapper ''A;'' 2 ''B;''
                                     listWrapper 1 1 registry0))
   \<and> compilerNodeOf (snd (insertIntoSyntaxList (\<lambda>_. newFile) fileWrapper ''A;'' 2 ''B;''
                             listWrapper 1 1 registry0)) (ident eofWrapper) = Some newEof
   \<and> getPos eofWrapper = 2 \<and> getPos newEof = 4 \<and> getEnd eofWrapper = 2 \<and> getEnd newEof = 4"
proof -
  let ?env = "\<lparr>syntaxList = listWrapper, syntaxListParent = getParent listWrapper,
               childIndex = 1, insertItemsCount = 1\<rparr>"
  let ?s0 = "getOrCreateWrapper newFile registry0"
  let ?s1 = "getOrCreateWrapper newList ?s0"
  have shape: "aligned ?env fileWrapper newFile"
    by (simp add: small_file_defs walk_defs)
  have offsets: "list_all (shiftedSpan 2 (int (length ''B;''))) (partners ?env fileWrapper newFile)"
    by (simp add: small_file_defs walk_defs shiftedSpan_def movedBy_def)
  have keeps: "list_all (keepsKey ?env) (partners ?env fileWrapper newFile)"
    by (simp add: small_file_defs walk_defs keepsKey_def sameKey_def)
  have stable: "keyStable ?env registry0"
    by (simp add: small_file_defs walk_defs keyStable_def sameKey_def)
  have 1: "invokes ?env (HandleNode (Some fileWrapper) newFile, ?s0)
             (HandleNodeChildren [listWrapper, eofWrapper] [newList, newEof], ?s0)"
    using node_children [of fileWrapper newFile ?env ?s0]
    by (simp add: fileWrapper_def newFile_def)
  have "isSyntaxListChild ?env ?s0 newList"
    by (simp add: small_file_defs walk_defs)
  then have 2: "invokes ?env (HandleNodeChildren [listWrapper, eofWrapper] [newList, newEof], ?s0)
             (HandleSyntaxList (Some listWrapper) newList, ?s1)"
    using child_list [where env = ?env and nc = newList and it = "[listWrapper, eofWrapper]"
        and rest = "[newEof]" and s = ?s0]
    by (simp add: nextValue_def)
  have target: "(invokes ?env)\<^sup>*\<^sup>* (HandleNode (Some fileWrapper) newFile, ?s0)
       (HandleSyntaxList (Some listWrapper) newList, ?s1)"
    using 1 2 by (meson rtranclp.rtrancl_into_rtrancl rtranclp.rtrancl_refl)
  have valid: "(0::int) \<le> 1" "(1::int) \<le> int (length (getChildren listWrapper))" "(0::int) \<le> 1"
    by (simp_all add: listWrapper_def)
  have exact: "length (getChildren newList) = length (getChildren listWrapper) + nat 1"
    by (simp add: listWrapper_def newList_def)
  have wrappers: "distinct (identsOf fileWrapper)"
    by (simp add: small_file_defs identsOf_def)
  have parsed: "distinct (identsOf newFile)"
    by (simp add: small_file_defs identsOf_def)
  have fresh: "\<forall>u \<in> set (identsOf newFile). nodeCache registry0 u = None"
    by (simp add: small_file_defs identsOf_def)
  have held: "\<forall>c \<in> set (nodesOf fileWrapper). \<forall>old. compilerNodeOf registry0 (ident c) = Some old \<longrightarrow>
                 set (identsOf old) \<inter> set (identsOf newFile) = {}"
    by (simp add: small_file_defs identsOf_def)
  note fact = insertion_keeps_wrapper_identity [where parse = "\<lambda>_. newFile" and sf = fileWrapper
      and t = "''A;''" and p = 2 and added = "''B;''" and sl = listWrapper and idx = 1 and cnt = 1
      and s = registry0 and list' = newList and sl' = ?s1,
      OF valid shape offsets keeps stable target exact wrappers parsed fresh held]
  let ?s' = "snd (insertIntoSyntaxList (\<lambda>_. newFile) fileWrapper ''A;'' 2 ''B;''
                    listWrapper 1 1 registry0)"
  from fact have ok: "fst (insertIntoSyntaxList (\<lambda>_. newFile) fileWrapper ''A;'' 2 ''B;''
                        listWrapper 1 1 registry0) = None"
    by blast
  from fact have the_list: "compilerNodeOf ?s' (ident listWrapper) = Some newList"
    by blast
  from fact have kept: "\<forall>j < length (getChildren listWrapper).
      compilerNodeOf ?s' (ident (getChildren listWrapper ! j))
        = Some (getChildren newList ! (if int j < 1 then j else j + nat 1))
      \<and> nodeCache ?s' (ident (getChildren newList ! (if int j < 1 then j else j + nat 1)))
        = Some (ident (getChildren listWrapper ! j))"
    by blast
  from fact have new: "\<forall>j. nat 1 \<le> j \<and> j < nat 1 + nat 1 \<longrightarrow>
      nodeCache ?s' (ident (getChildren newList ! j)) = None
      \<and> ident (getChildren newList ! j) \<in> made ?s'"
    by blast
  from fact have moved: "\<forall>c \<in> set (nodesOf fileWrapper). \<exists>n \<in> set (nodesOf newFile).
      compilerNodeOf ?s' (ident c) = Some n \<and> nodeCache ?s' (ident n) = Some (ident c)
      \<and> getKind n = getKind c
      \<and> movedBy 2 (int (length ''B;'')) (getPos c) (getPos n)
      \<and> movedBy 2 (int (length ''B;'')) (getEnd c) (getEnd n)"
    by blast
  have "eofWrapper \<in> set (nodesOf fileWrapper)"
    by (simp add: small_file_defs)
  with moved obtain n where n: "n \<in> set (nodesOf newFile)"
      "compilerNodeOf ?s' (ident eofWrapper) = Some n" "getKind n = getKind eofWrapper"
      "movedBy 2 (int (length ''B;'')) (getPos eofWrapper) (getPos n)"
    by blast
  from n(1,3,4) have "n = newEof"
    by (auto simp: small_file_defs movedBy_def)
  with n(2) have "compilerNodeOf ?s' (ident eofWrapper) = Some newEof" by simp
  moreover from kept [rule_format, of 0] have "compilerNodeOf ?s' (ident stmtWrapper) = Some newStmtA
      \<and> nodeCache ?s' (ident newStmtA) = Some (ident stmtWrapper)"
    by (simp add: listWrapper_def newList_def)
  moreover from new [rule_format, of 1] have "nodeCache ?s' (ident newStmtB) = None
      \<and> ident newStmtB \<in> made ?s'"
    by (simp add: newList_def)
  moreover have "getPos eofWrapper = 2 \<and> getPos newEof = 4 \<and> getEnd eofWrapper = 2
      \<and> getEnd newEof = 4"
    by (simp add: eofWrapper_def newEof_def)
  ultimately show ?thesis using ok the_list by blast
qed

subsection \<open>The empty insertion\<close>

lemma newFileText_empty: "newFileText t p [] = t"
  by (simp add: newFileText_def substring_def substringFrom_def clampIndex_def Let_def)

lemma sameContent_unfold:
  "sameContent c n =
     (getKind c = getKind n \<and> getPos c = getPos n \<and> getEnd c = getEnd n
      \<and> areNodesEqual (getParent c) (getParent n)
      \<and> sameContents (getChildren c) (getChildren n))"
  by (cases c) auto

lemma never_in_empty_range: "insertItemsCount env = 0 \<Longrightarrow> \<not> inInsertedRange env i"
  by (simp add: inInsertedRange_def)

lemma sameContent_aligned:
  "insertItemsCount env = 0 \<Longrightarrow> sameContent c n \<Longrightarrow>
     aligned env c n \<and> (\<forall>(a, b) \<in> set (partners env c n). sameContent a b)"
  "insertItemsCount env = 0 \<Longrightarrow> sameContents cs ns \<Longrightarrow>
     alignedChildren env cs ns \<and> (\<forall>(a, b) \<in> set (partnersChildren env cs ns). sameContent a b)"
  "insertItemsCount env = 0 \<Longrightarrow> sameContent c n \<Longrightarrow>
     alignedList env c n \<and> (\<forall>(a, b) \<in> set (partnersList env c n). sameContent a b)"
  "insertItemsCount env = 0 \<Longrightarrow> sameContents cs ns \<Longrightarrow>
     alignedItems env i cs ns \<and> (\<forall>(a, b) \<in> set (partnersItems env i cs ns). sameContent a b)"
proof (induction env c n and env cs ns and env c n and env i cs ns
       rule: aligned_alignedChildren_alignedList_alignedItems.induct)
  case (1 env c i k p e par ns)
  from 1(3) have "sameContents (getChildren c) ns" and "getKind c = k"
    by (simp_all add: sameContent_unfold [of c])
  with 1(1) [OF 1(2)] 1(3) show ?case by auto
next
  case (5 env c cs n ns)
  from 5(5) have head: "sameContent c n" and tail: "sameContents cs ns" by simp_all
  from 5(3) [OF 5(4) tail] have rest: "alignedChildren env cs ns"
      "\<forall>(a, b) \<in> set (partnersChildren env cs ns). sameContent a b"
    by simp_all
  show ?case
  proof (cases "matchesList env n")
    case True
    from 5(1) [OF True 5(4) head] rest True show ?thesis by auto
  next
    case False
    from 5(2) [OF False 5(4) head] rest False show ?thesis by auto
  qed
next
  case (6 env c i k p e par ns)
  from 6(3) have "sameContents (getChildren c) ns" and "getKind c = k"
    by (simp_all add: sameContent_unfold [of c])
  with 6(1) [OF 6(2)] 6(3) show ?case by auto
next
  case (10 env i c cs n ns)
  have out: "\<not> inInsertedRange env i" using 10(4) by (rule never_in_empty_range)
  from 10(5) have head: "sameContent c n" and tail: "sameContents cs ns" by simp_all
  from 10(2) [OF out 10(4) head] 10(3) [OF out 10(4) tail] out show ?case by auto
qed simp_all

text \<open>
  C9. Inserting the empty text with zero items at a valid index: the patched text is the
  current text, and the parser, a function of the text, returns a tree with the content
  of the wrapped tree in new objects. The edit succeeds, no wrapper is forgotten, and
  every wrapper of the tree holds a node with the kind, the span and the children it had,
  while the registry maps that node to this very wrapper.
\<close>

theorem empty_insertion_changes_nothing:
  fixes parse :: "string \<Rightarrow> node" and sf sl :: node and t :: string and p idx :: int
    and s :: registry
  defines "env \<equiv> \<lparr>syntaxList = sl, syntaxListParent = getParent sl,
                    childIndex = idx, insertItemsCount = 0\<rparr>"
    and "s' \<equiv> snd (insertIntoSyntaxList parse sf t p [] sl idx 0 s)"
  assumes valid: "0 \<le> idx" "idx \<le> int (length (getChildren sl))"
    and reparse: "sameContent sf (parse t)"
    and keeps: "list_all (keepsKey env) (partners env sf (parse t))"
    and stable: "keyStable env s"
    and wrappers: "distinct (identsOf sf)"
    and parsed: "distinct (identsOf (parse t))"
    and held: "\<forall>c \<in> set (nodesOf sf). \<forall>old. compilerNodeOf s (ident c) = Some old \<longrightarrow>
                 set (identsOf old) \<inter> set (identsOf (parse t)) = {}"
  shows "newFileText t p [] = t
       \<and> fst (insertIntoSyntaxList parse sf t p [] sl idx 0 s) = None
       \<and> forgotten s' = forgotten s
       \<and> (\<forall>c \<in> set (nodesOf sf).
             \<exists>n. compilerNodeOf s' (ident c) = Some n \<and> nodeCache s' (ident n) = Some (ident c)
                 \<and> sameContent c n)"
proof -
  let ?s0 = "getOrCreateWrapper (parse t) s"
  have run: "insertIntoSyntaxList parse sf t p [] sl idx 0 s
               = handleNode env (Some sf) (parse t) ?s0"
    using valid_index_runs_walk [OF valid, of parse sf t p "[]" 0 s]
    by (simp add: newFileText_empty env_def)
  then have s': "s' = snd (handleNode env (Some sf) (parse t) ?s0)" by (simp add: s'_def)
  have shape: "aligned env sf (parse t)"
    and same: "\<forall>(a, b) \<in> set (partners env sf (parse t)). sameContent a b"
    using sameContent_aligned(1) [of env sf "parse t"] reparse by (simp_all add: env_def)
  have stable0: "keyStable env ?s0" using stable by simp
  have held0: "\<forall>c \<in> set (nodesOf sf). \<forall>old. compilerNodeOf ?s0 (ident c) = Some old \<longrightarrow>
                 set (identsOf old) \<inter> set (identsOf (parse t)) = {}"
    using held by simp
  note reg = aligned_walk_registry [OF shape keeps stable0 wrappers parsed held0, folded s']
  have "\<exists>n. compilerNodeOf s' (ident c) = Some n \<and> nodeCache s' (ident n) = Some (ident c)
                 \<and> sameContent c n"
    if "c \<in> set (nodesOf sf)" for c
  proof -
    from that reg(3) obtain n where cn: "(c, n) \<in> set (partners env sf (parse t))"
      by force
    with same have "sameContent c n" by blast
    with reg(5) [OF cn] show ?thesis by blast
  qed
  with run reg(1) reg(2) show ?thesis
    by (simp add: newFileText_empty)
qed

theorem empty_insertion_changes_nothing_witness:
  "fst (insertIntoSyntaxList (\<lambda>_. againFile) fileWrapper ''A;'' 2 [] listWrapper 1 0 registry0) = None
   \<and> forgotten (snd (insertIntoSyntaxList (\<lambda>_. againFile) fileWrapper ''A;'' 2 [] listWrapper 1 0
                       registry0)) = {}
   \<and> (\<exists>n. compilerNodeOf (snd (insertIntoSyntaxList (\<lambda>_. againFile) fileWrapper ''A;'' 2 []
                                  listWrapper 1 0 registry0)) (ident stmtWrapper) = Some n
          \<and> nodeCache (snd (insertIntoSyntaxList (\<lambda>_. againFile) fileWrapper ''A;'' 2 []
                              listWrapper 1 0 registry0)) (ident n) = Some (ident stmtWrapper)
          \<and> sameContent stmtWrapper n)"
proof -
  have valid: "(0::int) \<le> 1" "(1::int) \<le> int (length (getChildren listWrapper))"
    by (simp_all add: listWrapper_def)
  let ?env = "\<lparr>syntaxList = listWrapper, syntaxListParent = getParent listWrapper,
               childIndex = 1, insertItemsCount = 0\<rparr>"
  have reparse: "sameContent fileWrapper againFile"
    by (simp add: small_file_defs againFile_def)
  have keeps: "list_all (keepsKey ?env) (partners ?env fileWrapper againFile)"
    by (simp add: small_file_defs walk_defs againFile_def keepsKey_def sameKey_def)
  have stable: "keyStable ?env registry0"
    by (simp add: small_file_defs walk_defs keyStable_def sameKey_def)
  have wrappers: "distinct (identsOf fileWrapper)"
    by (simp add: small_file_defs identsOf_def)
  have parsed: "distinct (identsOf againFile)"
    by (simp add: small_file_defs againFile_def identsOf_def)
  have held: "\<forall>c \<in> set (nodesOf fileWrapper). \<forall>old. compilerNodeOf registry0 (ident c) = Some old \<longrightarrow>
                 set (identsOf old) \<inter> set (identsOf againFile) = {}"
    by (simp add: small_file_defs againFile_def identsOf_def)
  note fact = empty_insertion_changes_nothing [where parse = "\<lambda>_. againFile" and sf = fileWrapper
      and t = "''A;''" and p = 2 and sl = listWrapper and idx = 1 and s = registry0,
      OF valid reparse keeps stable wrappers parsed held]
  have "stmtWrapper \<in> set (nodesOf fileWrapper)"
    by (simp add: small_file_defs)
  moreover have "forgotten registry0 = {}"
    by (simp add: registry0_def)
  ultimately show ?thesis using fact by simp
qed

end
